theory Spec2Isabelle
  imports Complex_Main
begin

section \<open>Data model of the sequencer store module\<close>

text \<open>
  A JavaScript number is an IEEE 754 double. A number that holds a time or the tempo is
  modelled as the real number it denotes, and every arithmetic operation on such numbers
  as the exact operation followed by the rounding to the nearest double, ties to even
  (\<open>js_add\<close>, \<open>js_sub\<close>, \<open>js_mul\<close>, \<open>js_div\<close> below); comparisons are exact. The
  exponent range is not bounded (no overflow to Infinity, no subnormal numbers), and
  a division by zero yields 0 where JavaScript yields Infinity or NaN: the theorems on
  the value of a step's subdivision and of the length of a module parameter change take
  the divisors to be non-zero. Numbers that only ever hold integers (pattern indices,
  step counters) are \<open>int\<close> or, where they are array lengths, \<open>nat\<close>. The array index that
  \<open>setPatternSteps\<close> accumulates is kept exact: whenever one step count divides the other
  it runs through integers, which doubles hold exactly, and for other step counts only
  the lengths of the new channels are stated, and runs whose indices are doubles.

  Events are objects shared by reference between the pattern slots and the per-channel
  LinkedLists, and the scheduler mutates their \<open>seq\<close> sub-record in place. They live in
  an explicit heap, a total function from references to event records.
\<close>

subsection \<open>Double-precision arithmetic\<close>

text \<open>Rounding to the nearest integer, a tie going to the even one.\<close>

definition round_even :: "real \<Rightarrow> int" where
  "round_even x =
     (let n = \<lfloor>x\<rfloor>; r = x - of_int n
      in if r < 1/2 then n else if 1/2 < r then n + 1 else if even n then n else n + 1)"

text \<open>A double has 53 significant bits: between \<open>2 ^ 52\<close> and \<open>2 ^ 53\<close> the doubles are
  the integers. A positive number is scaled by powers of two into that range, rounded
  there and scaled back.\<close>

function round_large :: "real \<Rightarrow> real" where
  "round_large x = (if x < 2 ^ 53 then of_int (round_even x) else 2 * round_large (x / 2))"
  by pat_completeness auto
termination
proof (relation "measure (\<lambda>x. nat \<lfloor>x\<rfloor>)")
  show "wf (measure (\<lambda>x::real. nat \<lfloor>x\<rfloor>))" by simp
next
  fix x :: real
  assume "\<not> x < 2 ^ 53"
  then have x: "2 \<le> x" by simp
  then have "x / 2 < of_int \<lfloor>x\<rfloor>"
    by linarith
  then have "\<lfloor>x / 2\<rfloor> < \<lfloor>x\<rfloor>"
    by linarith
  moreover have "0 < \<lfloor>x\<rfloor>" using x by linarith
  ultimately show "(x / 2, x) \<in> measure (\<lambda>x. nat \<lfloor>x\<rfloor>)"
    by simp
qed

function round_pos :: "real \<Rightarrow> real" where
  "round_pos x =
     (if x \<le> 0 then 0
      else if x < 2 ^ 52 then round_pos (2 * x) / 2
      else round_large x)"
  by pat_completeness auto
termination
proof (relation "measure (\<lambda>x. nat \<lceil>2 ^ 52 / x\<rceil>)")
  show "wf (measure (\<lambda>x::real. nat \<lceil>2 ^ 52 / x\<rceil>))" by simp
next
  fix x :: real
  assume a: "\<not> x \<le> 0" and b: "x < 2 ^ 52"
  define y where "y = 2 ^ 52 / x"
  have y: "1 < y"
    using a b by (simp add: y_def)
  have "2 ^ 52 / (2 * x) = y / 2"
    by (simp add: y_def)
  moreover have "\<lceil>y / 2\<rceil> < \<lceil>y\<rceil>"
  proof -
    have "2 \<le> \<lceil>y\<rceil>" using y by linarith
    then have "(2::real) \<le> of_int \<lceil>y\<rceil>" by simp
    moreover have "y \<le> of_int \<lceil>y\<rceil>" by linarith
    ultimately have "y / 2 \<le> of_int \<lceil>y\<rceil> - 1"
      by linarith
    then have "y / 2 \<le> of_int (\<lceil>y\<rceil> - 1)"
      by simp
    then have "\<lceil>y / 2\<rceil> \<le> \<lceil>y\<rceil> - 1"
      by (simp only: ceiling_le_iff)
    then show ?thesis by simp
  qed
  moreover have "0 < \<lceil>y\<rceil>" using y by linarith
  ultimately show "(2 * x, x) \<in> measure (\<lambda>x. nat \<lceil>2 ^ 52 / x\<rceil>)"
    by (simp add: y_def)
qed

definition round_double :: "real \<Rightarrow> real" where
  "round_double x = (if x < 0 then - round_pos (- x) else round_pos x)"

text \<open>The four arithmetic operators of JavaScript on numbers.\<close>

definition js_add :: "real \<Rightarrow> real \<Rightarrow> real" where
  "js_add a b = round_double (a + b)"

definition js_sub :: "real \<Rightarrow> real \<Rightarrow> real" where
  "js_sub a b = round_double (a - b)"

definition js_mul :: "real \<Rightarrow> real \<Rightarrow> real" where
  "js_mul a b = round_double (a * b)"

definition js_div :: "real \<Rightarrow> real \<Rightarrow> real" where
  "js_div a b = round_double (a / b)"

text \<open>The same rounding computed on a fraction \<open>p / q\<close> of integers, with the scaling kept
  as a count \<open>k\<close> of doublings; \<open>round_pos_fraction\<close> below proves it equal to \<open>round_pos\<close>,
  and it is what evaluates \<open>round_pos\<close> on concrete numbers.\<close>

definition round_even_frac :: "int \<Rightarrow> int \<Rightarrow> int" where
  "round_even_frac p q =
     (let n = p div q; r2 = 2 * (p mod q)
      in if r2 < q then n else if q < r2 then n + 1 else if even n then n else n + 1)"

function round_large_frac :: "int \<Rightarrow> int \<Rightarrow> nat \<Rightarrow> real" where
  "round_large_frac p q k =
     (if q \<le> 0 then 0
      else if p < 2 ^ 53 * q then of_int (round_even_frac p q * 2 ^ k)
      else round_large_frac p (2 * q) (Suc k))"
  by pat_completeness auto
termination
  by (relation "measure (\<lambda>(p, q, k). nat (p - 2 ^ 53 * q + 1))") auto

function round_pos_frac :: "int \<Rightarrow> int \<Rightarrow> nat \<Rightarrow> real" where
  "round_pos_frac p q k =
     (if p \<le> 0 \<or> q \<le> 0 then 0
      else if p < 2 ^ 52 * q then round_pos_frac (2 * p) q (Suc k)
      else round_large_frac p q 0 / of_int (2 ^ k))"
  by pat_completeness auto
termination
  by (relation "measure (\<lambda>(p, q, k). nat (2 ^ 52 * q - p))") auto

subsection \<open>Songs\<close>

type_synonym event_id = nat
type_synonym instrument = nat

text \<open>A slot of a channel array: JavaScript \<open>undefined\<close>, the number 0 that the editor
  uses for an empty slot, or a reference to an event object.\<close>

datatype slot = Undefined | Empty | Ev event_id

record event_seq =
  startMeasure :: int
  startMeasureOffset :: real
  seq_length :: real
  mpLength :: real
  seq_playing :: bool

record event =
  action :: int
  instrument :: int
  ev_recording :: bool
  seq :: event_seq

record pattern =
  steps :: nat
  channels :: "slot list list"

record song =
  tempo :: real
  patterns :: "pattern list"
  instruments :: "instrument list"

subsection \<open>setPatternSteps\<close>

text \<open>Reading \<open>channel[j]\<close> and writing \<open>transformed[j] = v\<close> for a JavaScript number
  \<open>j\<close>: only a non-negative integer is an array index. A read anywhere else is
  \<open>undefined\<close>; a write at a non-integer sets a property of the array object and leaves
  its elements alone; a write at or beyond the length extends the array with holes.\<close>

definition is_index :: "real \<Rightarrow> bool" where
  "is_index j \<longleftrightarrow> 0 \<le> j \<and> of_int \<lfloor>j\<rfloor> = j"

definition read_slot :: "slot list \<Rightarrow> real \<Rightarrow> slot" where
  "read_slot channel j =
     (if is_index j \<and> nat \<lfloor>j\<rfloor> < length channel then channel ! nat \<lfloor>j\<rfloor> else Undefined)"

definition write_slot :: "slot list \<Rightarrow> real \<Rightarrow> slot \<Rightarrow> slot list" where
  "write_slot transformed j v =
     (if is_index j then
        (if nat \<lfloor>j\<rfloor> < length transformed then transformed[nat \<lfloor>j\<rfloor> := v]
         else transformed @ replicate (nat \<lfloor>j\<rfloor> - length transformed) Undefined @ [v])
      else transformed)"

text \<open>The two copy loops \<open>for (i = 0, j = 0; i < n; ++i, j += increment)\<close>.\<close>

function reduce_loop :: "nat \<Rightarrow> real \<Rightarrow> nat \<Rightarrow> real \<Rightarrow> slot list \<Rightarrow> slot list \<Rightarrow> slot list" where
  "reduce_loop i j n increment channel transformed =
     (if i < n
      then reduce_loop (i + 1) (j + increment) n increment channel
             (write_slot transformed (real i) (read_slot channel j))
      else transformed)"
  by pat_completeness auto
termination
  by (relation "measure (\<lambda>(i, j, n, increment, channel, transformed). n - i)") auto

function expand_loop :: "nat \<Rightarrow> real \<Rightarrow> nat \<Rightarrow> real \<Rightarrow> slot list \<Rightarrow> slot list \<Rightarrow> slot list" where
  "expand_loop i j n increment channel transformed =
     (if i < n
      then expand_loop (i + 1) (j + increment) n increment channel
             (write_slot transformed j (read_slot channel (real i)))
      else transformed)"
  by pat_completeness auto
termination
  by (relation "measure (\<lambda>(i, j, n, increment, channel, transformed). n - i)") auto

text \<open>The body of the \<open>forEach\<close> over the channels of the pattern.\<close>

definition transform_channel :: "nat \<Rightarrow> nat \<Rightarrow> slot list \<Rightarrow> slot list" where
  "transform_channel oldAmount newSteps channel =
     (let transformed = replicate newSteps Empty in
      if newSteps < oldAmount
      then reduce_loop 0 0 newSteps (real oldAmount / real newSteps) channel transformed
      else expand_loop 0 0 oldAmount (real newSteps / real oldAmount) channel transformed)"

text \<open>\<open>Vue.set(pattern, 'steps', steps)\<close> sits inside the \<open>forEach\<close>: a pattern without
  channels keeps its old step count.\<close>

definition setPatternSteps :: "pattern \<Rightarrow> nat \<Rightarrow> pattern" where
  "setPatternSteps pattern newSteps =
     (let oldAmount = steps pattern in
      pattern\<lparr> channels := map (transform_channel oldAmount newSteps) (channels pattern),
               steps := (if channels pattern = [] then steps pattern else newSteps) \<rparr>)"


section \<open>The sequencer state\<close>

text \<open>Everything the scheduler sends to its collaborators (the AudioService, the
  Metronome, the worker) is recorded, in order, in one trace.\<close>

datatype worker_msg = Start real | Stop

datatype command =
    NoteOn event_id "instrument option" real
  | NoteOff event_id real
  | MetronomePlay int int int real
  | PostMessage worker_msg

text \<open>The flags of the Metronome service object that the module reads and writes
  through \<open>state.metronome\<close>.\<close>

record metronome =
  enabled :: bool
  countIn :: bool
  countInComplete :: bool
  restore :: bool

text \<open>Modelled from the spec: the LinkedList of \<open>@/utils/linked-list\<close> is not among the
  sources. A Voice Queue is a strict FIFO with append at the tail (\<open>add\<close>), a head, removal
  of the head node (\<open>remove\<close>) and \<open>flush\<close>, which removes every entry without emitting
  anything: it is a list of event references, head first.\<close>

type_synonym linked_list = "event_id list"

text \<open>The fields of \<open>state\<close>, followed by the event heap and the command trace.
  \<open>channelQueue\<close> is the array of LinkedLists as \<open>prepareSequencer\<close> leaves it (one list
  per entry, the worker created). \<open>state.channels\<close> aliases the \<open>channels\<close> array of one
  pattern of the song: \<open>st_channels\<close> is \<open>Some p\<close> when it is bound to the array of
  pattern \<open>p\<close>, and \<open>None\<close> for the initial value \<open>0\<close>.\<close>

record store =
  playing :: bool
  looping :: bool
  recording :: bool
  scheduleAheadTime :: real
  stepPrecision :: int
  beatAmount :: real
  channelQueue :: "linked_list list"
  activePattern :: int
  measureStartTime :: real
  firstMeasureStartTime :: real
  currentStep :: int
  nextNoteTime :: real
  st_channels :: "nat option"
  metronome :: metronome
  heap :: "event_id \<Rightarrow> event"
  sink :: "command list"

text \<open>What the AudioService answers: the \<open>currentTime\<close> of its audio context (\<open>None\<close>
  when there is no context) and whether it is recording its output. Both are constant
  during one synchronous call.\<close>

record audio_service =
  audioContext :: "real option"
  isRecording :: bool

text \<open>A call either returns or throws; the mutations made before a throw stay.\<close>

datatype js_error = TypeError

datatype outcome = Returned store | Thrown js_error store

fun state_of :: "outcome \<Rightarrow> store" where
  "state_of (Returned w) = w"
| "state_of (Thrown e w) = w"

fun returned :: "outcome \<Rightarrow> bool" where
  "returned (Returned w) = True"
| "returned (Thrown e w) = False"

text \<open>\<open>xs[i]\<close> for an integer-valued number \<open>i\<close>: \<open>undefined\<close> out of range.\<close>

definition array_get :: "'a list \<Rightarrow> int \<Rightarrow> 'a option" where
  "array_get xs i = (if 0 \<le> i \<and> nat i < length xs then Some (xs ! nat i) else None)"

section \<open>Internal methods\<close>

definition dequeueEvent :: "event_id \<Rightarrow> real \<Rightarrow> store \<Rightarrow> store" where
  "dequeueEvent e time w = w\<lparr> sink := sink w @ [NoteOff e time] \<rparr>"

definition set_seq_playing :: "event_id \<Rightarrow> bool \<Rightarrow> store \<Rightarrow> store" where
  "set_seq_playing e b w =
     w\<lparr> heap := (heap w)(e := (heap w e)\<lparr> seq := (seq (heap w e))\<lparr> seq_playing := b \<rparr> \<rparr>) \<rparr>"

definition set_seq_mpLength :: "event_id \<Rightarrow> real \<Rightarrow> store \<Rightarrow> store" where
  "set_seq_mpLength e l w =
     w\<lparr> heap := (heap w)(e := (heap w e)\<lparr> seq := (seq (heap w e))\<lparr> mpLength := l \<rparr> \<rparr>) \<rparr>"

text \<open>The loop of \<open>enqueueEvent\<close> that takes the head of the list, dequeues it and removes
  it until the list is empty, run on the content of the list.\<close>

fun kill_playing :: "linked_list \<Rightarrow> real \<Rightarrow> store \<Rightarrow> store" where
  "kill_playing [] time w = w"
| "kill_playing (playingNote # rest) time w = kill_playing rest time (dequeueEvent playingNote time w)"

definition enqueueEvent :: "song \<Rightarrow> event_id \<Rightarrow> nat \<Rightarrow> store \<Rightarrow> outcome" where
  "enqueueEvent activeSong e eventChannel w0 =
     (let nnt = nextNoteTime w0;
          w1 = set_seq_playing e True w0;
          patternDuration = js_mul (js_div 60 (tempo activeSong)) (beatAmount w1);
          eventPattern = array_get (patterns activeSong) (activePattern w1);
          w2 = set_seq_mpLength e
                 (case eventPattern of
                    Some p \<Rightarrow> js_div patternDuration (real (steps p))
                  | None \<Rightarrow> 0) w1;
          event = heap w2 e;
          w3 = w2\<lparr> sink := sink w2 @
                  [NoteOn e (array_get (instruments activeSong) (instrument event)) nnt] \<rparr>;
          isNoteOn = (action event = 1)
      in if action event \<noteq> 0 \<and> \<not> eventChannel < length (channelQueue w3)
         then Thrown TypeError w3
         else
           (let w4 = (if action event \<noteq> 0
                      then (kill_playing (channelQueue w3 ! eventChannel) nnt w3)
                             \<lparr> channelQueue := (channelQueue w3)[eventChannel := []] \<rparr>
                      else w3)
            in if isNoteOn
               then Returned (w4\<lparr> channelQueue :=
                        (channelQueue w4)[eventChannel := channelQueue w4 ! eventChannel @ [e]] \<rparr>)
               else Returned (dequeueEvent e (js_add nnt (mpLength (seq event))) w4)))"

section \<open>Mutations\<close>

definition setPlaying :: "bool \<Rightarrow> store \<Rightarrow> store" where
  "setPlaying isPlaying w =
     (let w1 = w\<lparr> playing := isPlaying \<rparr> in
      if playing w1 then
        (let w2 = (if recording w1 \<and> countIn (metronome w1)
                   then w1\<lparr> metronome := (metronome w1)\<lparr> countInComplete := False, enabled := True \<rparr> \<rparr>
                   else w1);
             w3 = w2\<lparr> currentStep := 0 \<rparr>
         in w3\<lparr> sink := sink w3 @ [PostMessage (Start (js_div (js_mul (scheduleAheadTime w3) 1000) 4))] \<rparr>)
      else
        (let w2 = w1\<lparr> sink := sink w1 @ [PostMessage Stop] \<rparr>
         in w2\<lparr> channelQueue := map (\<lambda>list. []) (channelQueue w2) \<rparr>))"

definition setActivePattern :: "int \<Rightarrow> store \<Rightarrow> store" where
  "setActivePattern v w = w\<lparr> activePattern := v \<rparr>"

definition gotoNextPattern :: "song \<Rightarrow> store \<Rightarrow> store" where
  "gotoNextPattern activeSong w =
     (let max = int (length (patterns activeSong)) - 1 in
      if activePattern w < max then w\<lparr> activePattern := activePattern w + 1 \<rparr> else w)"

definition setCurrentStep :: "int \<Rightarrow> store \<Rightarrow> store" where
  "setCurrentStep step w = w\<lparr> currentStep := step \<rparr>"

text \<open>The flush of \<open>setPosition\<close>: every list, first to last, is emptied from its head;
  each removed event is dequeued at \<open>currentTime\<close> and its \<open>seq.playing\<close> is cleared.\<close>

fun stop_playing :: "linked_list \<Rightarrow> real \<Rightarrow> store \<Rightarrow> store" where
  "stop_playing [] currentTime w = w"
| "stop_playing (playingNote # rest) currentTime w =
     stop_playing rest currentTime (set_seq_playing playingNote False (dequeueEvent playingNote currentTime w))"

fun stop_all :: "linked_list list \<Rightarrow> real \<Rightarrow> store \<Rightarrow> store" where
  "stop_all [] currentTime w = w"
| "stop_all (list # rest) currentTime w = stop_all rest currentTime (stop_playing list currentTime w)"

text \<open>\<open>currentTime\<close> is \<open>None\<close> when the caller passes no number.\<close>

definition setPosition :: "audio_service \<Rightarrow> song \<Rightarrow> int \<Rightarrow> real option \<Rightarrow> store \<Rightarrow> outcome" where
  "setPosition audio activeSong pattern0 currentTime0 w =
     (let pattern = (if pattern0 \<ge> int (length (patterns activeSong))
                     then int (length (patterns activeSong)) - 1 else pattern0);
          w1 = (if activePattern w \<noteq> pattern then w\<lparr> currentStep := 0 \<rparr> else w);
          currentTime = (case currentTime0 of
                           Some t \<Rightarrow> t
                         | None \<Rightarrow> (case audioContext audio of Some t \<Rightarrow> t | None \<Rightarrow> 0));
          w2 = w1\<lparr> activePattern := pattern,
                   nextNoteTime := currentTime,
                   measureStartTime := currentTime,
                   firstMeasureStartTime :=
                     js_sub currentTime
                       (js_mul (real_of_int pattern)
                          (js_mul (js_div 60 (tempo activeSong)) (beatAmount w1))) \<rparr>
      in case array_get (patterns activeSong) (activePattern w2) of
           None \<Rightarrow> Thrown TypeError w2
         | Some p \<Rightarrow>
             (let w3 = w2\<lparr> st_channels := Some (nat (activePattern w2)) \<rparr>
              in if activePattern w3 = 0
                 then Returned ((stop_all (channelQueue w3) currentTime w3)
                                  \<lparr> channelQueue := map (\<lambda>list. []) (channelQueue w3) \<rparr>)
                 else Returned w3))"


section \<open>step\<close>

text \<open>The end of the wrap block of \<open>step\<close>, from the commit of \<open>setPosition\<close> on. It is
  a definition of its own because the early \<open>return\<close> of \<open>step\<close> skips it.\<close>

definition step_position :: "audio_service \<Rightarrow> song \<Rightarrow> store \<Rightarrow> outcome" where
  "step_position audio activeSong w =
     (case setPosition audio activeSong (activePattern w) (Some (nextNoteTime w)) w of
        Thrown err w1 \<Rightarrow> Thrown err w1
      | Returned w1 \<Rightarrow>
          if recording w1 \<and> countIn (metronome w1) \<and> \<not> countInComplete (metronome w1)
          then
            (let w2 = w1\<lparr> metronome := (metronome w1)\<lparr> enabled := restore (metronome w1),
                                                       countInComplete := True \<rparr> \<rparr>
             in case audioContext audio of
                  None \<Rightarrow> Thrown TypeError w2
                | Some t \<Rightarrow>
                    (let w3 = setActivePattern 0 (w2\<lparr> firstMeasureStartTime := t \<rparr>)
                     in Returned (setActivePattern (activePattern w3) w3)))
          else Returned (setActivePattern (activePattern w1) w1))"

definition step :: "audio_service \<Rightarrow> song \<Rightarrow> store \<Rightarrow> outcome" where
  "step audio activeSong w0 =
     (let maxMeasure = int (length (patterns activeSong)) - 1;
          w1 = w0\<lparr> nextNoteTime :=
                     js_add (nextNoteTime w0)
                       (js_div (js_mul (js_div 60 (tempo activeSong)) 4)
                          (real_of_int (stepPrecision w0))) \<rparr>;
          currentStep1 = currentStep w1 + 1;
          w2 = setCurrentStep currentStep1 w1
      in if currentStep1 = stepPrecision w2 then
           (let w3 = setCurrentStep 0 w2;
                nextPattern = activePattern w3 + 1
            in if nextPattern > maxMeasure then
                 (let w4 = setActivePattern 0 w3
                  in if isRecording audio \<and> \<not> looping w4
                     then Returned (setPlaying False w4)
                     else step_position audio activeSong w4)
               else if \<not> looping w3 then step_position audio activeSong (gotoNextPattern activeSong w3)
               else step_position audio activeSong w3)
         else Returned w2)"

section \<open>collect\<close>

definition in_trigger_range :: "real \<Rightarrow> event_seq \<Rightarrow> bool" where
  "in_trigger_range compareTime sq \<longleftrightarrow>
     compareTime \<ge> startMeasureOffset sq \<and>
     compareTime < js_add (startMeasureOffset sq) (seq_length sq)"

text \<open>The body of the innermost loop, for the slot \<open>channel[channelStep]\<close> of channel \<open>i\<close>.\<close>

definition collect_slot :: "song \<Rightarrow> real \<Rightarrow> nat \<Rightarrow> slot \<Rightarrow> store \<Rightarrow> outcome" where
  "collect_slot activeSong compareTime i sl w =
     (case sl of
        Ev e \<Rightarrow>
          (let event = heap w e in
           if ev_recording event \<or> startMeasure (seq event) \<noteq> activePattern w then Returned w
           else if in_trigger_range compareTime (seq event)
                then (if \<not> seq_playing (seq event) then enqueueEvent activeSong e i w else Returned w)
                else Returned (set_seq_playing e False w))
      | _ \<Rightarrow> Returned w)"

text \<open>\<open>while (channelStep--)\<close> visits the slots from the last to the first: the list given
  here is the channel reversed.\<close>

fun collect_channel :: "song \<Rightarrow> real \<Rightarrow> nat \<Rightarrow> slot list \<Rightarrow> store \<Rightarrow> outcome" where
  "collect_channel activeSong compareTime i [] w = Returned w"
| "collect_channel activeSong compareTime i (sl # rest) w =
     (case collect_slot activeSong compareTime i sl w of
        Thrown err w1 \<Rightarrow> Thrown err w1
      | Returned w1 \<Rightarrow> collect_channel activeSong compareTime i rest w1)"

text \<open>\<open>i = state.channels.length; while (i--)\<close>: the channels from the last to the first.\<close>

fun collect_channels :: "song \<Rightarrow> real \<Rightarrow> slot list list \<Rightarrow> nat \<Rightarrow> store \<Rightarrow> outcome" where
  "collect_channels activeSong compareTime chs 0 w = Returned w"
| "collect_channels activeSong compareTime chs (Suc i) w =
     (case collect_channel activeSong compareTime i (rev (chs ! i)) w of
        Thrown err w1 \<Rightarrow> Thrown err w1
      | Returned w1 \<Rightarrow> collect_channels activeSong compareTime chs i w1)"

text \<open>The array \<open>state.channels\<close> refers to. The initial value \<open>0\<close> has no \<open>length\<close>, so
  the loop over it does not run, as over an empty array.\<close>

definition state_channels :: "song \<Rightarrow> store \<Rightarrow> slot list list" where
  "state_channels activeSong w =
     (case st_channels w of
        None \<Rightarrow> []
      | Some p \<Rightarrow> (case array_get (patterns activeSong) (int p) of
                    Some pat \<Rightarrow> channels pat
                  | None \<Rightarrow> []))"

text \<open>One iteration of the \<open>while\<close> loop of \<open>collect\<close>.\<close>

definition collect_pass :: "audio_service \<Rightarrow> song \<Rightarrow> bool \<Rightarrow> store \<Rightarrow> outcome" where
  "collect_pass audio activeSong sequenceEvents w =
     (case (if sequenceEvents
            then collect_channels activeSong (js_sub (nextNoteTime w) (measureStartTime w))
                   (state_channels activeSong w) (length (state_channels activeSong w)) w
            else Returned w) of
        Thrown err w1 \<Rightarrow> Thrown err w1
      | Returned w1 \<Rightarrow>
          step audio activeSong
            (if enabled (metronome w1)
             then w1\<lparr> sink := sink w1 @
                       [MetronomePlay 2 (currentStep w1) (stepPrecision w1) (nextNoteTime w1)] \<rparr>
             else w1))"

text \<open>The \<open>while\<close> loop runs for as long as \<open>nextNoteTime\<close> is below the horizon, which
  is forever when the subdivision is not positive: the loop takes fuel, and \<open>None\<close> is a
  loop that has not returned within it.\<close>

fun collect_loop :: "nat \<Rightarrow> audio_service \<Rightarrow> song \<Rightarrow> bool \<Rightarrow> store \<Rightarrow> outcome option" where
  "collect_loop fuel audio activeSong sequenceEvents w =
     (case audioContext audio of
        None \<Rightarrow> Some (Thrown TypeError w)
      | Some now \<Rightarrow>
          if nextNoteTime w < js_add now (scheduleAheadTime w) then
            (case fuel of
               0 \<Rightarrow> None
             | Suc n \<Rightarrow>
                 (case collect_pass audio activeSong sequenceEvents w of
                    Thrown err w1 \<Rightarrow> Some (Thrown err w1)
                  | Returned w1 \<Rightarrow> collect_loop n audio activeSong sequenceEvents w1))
          else Some (Returned w))"

definition collect :: "nat \<Rightarrow> audio_service \<Rightarrow> song \<Rightarrow> store \<Rightarrow> outcome option" where
  "collect fuel audio activeSong w =
     (let sequenceEvents =
            \<not> (recording w \<and> countIn (metronome w) \<and> \<not> countInComplete (metronome w))
      in collect_loop fuel audio activeSong sequenceEvents w)"

section \<open>Auxiliary notions used in the statements\<close>

text \<open>\<open>n\<close> successive calls of \<open>step\<close>; a throw ends the sequence.\<close>

fun step_times :: "nat \<Rightarrow> audio_service \<Rightarrow> song \<Rightarrow> store \<Rightarrow> outcome" where
  "step_times 0 audio activeSong w = Returned w"
| "step_times (Suc n) audio activeSong w =
     (case step audio activeSong w of
        Thrown err w1 \<Rightarrow> Thrown err w1
      | Returned w1 \<Rightarrow> step_times n audio activeSong w1)"

text \<open>An event with \<open>seq.playing\<close> cleared and nothing else changed.\<close>

definition clear_playing :: "event \<Rightarrow> event" where
  "clear_playing ev = ev\<lparr> seq := (seq ev)\<lparr> seq_playing := False \<rparr> \<rparr>"

text \<open>The condition under which the wrap block of \<open>step\<close> completes the count-in.\<close>

definition count_in_due :: "store \<Rightarrow> bool" where
  "count_in_due w \<longleftrightarrow> recording w \<and> countIn (metronome w) \<and> \<not> countInComplete (metronome w)"

text \<open>The pattern index that the wrap block of \<open>step\<close> hands to \<open>setPosition\<close>.\<close>

definition wrap_pattern :: "song \<Rightarrow> store \<Rightarrow> int" where
  "wrap_pattern activeSong w =
     (if activePattern w + 1 > int (length (patterns activeSong)) - 1 then 0
      else if \<not> looping w then activePattern w + 1
      else activePattern w)"

section \<open>Concrete songs and states\<close>

definition demo_event :: "int \<Rightarrow> int \<Rightarrow> real \<Rightarrow> real \<Rightarrow> event" where
  "demo_event act m offset len =
     \<lparr> action = act, instrument = 0, ev_recording = False,
       seq = \<lparr> startMeasure = m, startMeasureOffset = offset, seq_length = len,
               mpLength = 0, seq_playing = False \<rparr> \<rparr>"

text \<open>Two patterns of four steps and one channel, at 120 BPM: a step lasts half a second.
  Pattern 0 holds the noteOn events 0 and 1 at steps 0 and 2, pattern 1 the module
  parameter change 2 at step 0.\<close>

definition demo_song :: song where
  "demo_song =
     \<lparr> tempo = 120,
       patterns = [\<lparr> steps = 4, channels = [[Ev 0, Empty, Ev 1, Empty]] \<rparr>,
                   \<lparr> steps = 4, channels = [[Ev 2, Empty, Empty, Empty]] \<rparr>],
       instruments = [7] \<rparr>"

definition demo_heap :: "event_id \<Rightarrow> event" where
  "demo_heap = (\<lambda>e. demo_event 1 0 0 (1/2))
                 (1 := demo_event 1 0 1 (1/2), 2 := demo_event 0 1 0 (1/2))"

definition demo_store :: store where
  "demo_store =
     \<lparr> playing = True, looping = False, recording = False, scheduleAheadTime = 1/4,
       stepPrecision = 4, beatAmount = 4, channelQueue = [[]], activePattern = 0,
       measureStartTime = 0, firstMeasureStartTime = 0, currentStep = 0, nextNoteTime = 0,
       st_channels = Some 0,
       metronome = \<lparr> enabled = False, countIn = False, countInComplete = False, restore = False \<rparr>,
       heap = demo_heap, sink = [] \<rparr>"

definition demo_audio :: audio_service where
  "demo_audio = \<lparr> audioContext = Some (3/8), isRecording = False \<rparr>"

text \<open>The same song at 90 and at 140 BPM, tempos whose step lengths are not doubles, and
  a state with sixteen steps to the bar.\<close>

definition song_90 :: song where
  "song_90 = demo_song\<lparr> tempo := 90 \<rparr>"

definition song_140 :: song where
  "song_140 = demo_song\<lparr> tempo := 140 \<rparr>"

definition store_16 :: store where
  "store_16 = demo_store\<lparr> stepPrecision := 16 \<rparr>"

text \<open>The last step of a one-bar count-in of a recording, started on pattern 0.\<close>

definition count_in_store :: store where
  "count_in_store =
     demo_store\<lparr> currentStep := 3, recording := True,
       metronome := \<lparr> enabled = True, countIn = True, countInComplete = False, restore = False \<rparr> \<rparr>"

text \<open>Patterns of one channel for the step-count changes.\<close>

definition two_steps :: pattern where
  "two_steps = \<lparr> steps = 2, channels = [[Ev 0, Ev 1]] \<rparr>"

definition three_steps :: pattern where
  "three_steps = \<lparr> steps = 3, channels = [[Ev 0, Ev 1, Ev 2]] \<rparr>"

definition four_steps :: pattern where
  "four_steps = \<lparr> steps = 4, channels = [[Ev 0, Ev 1, Empty, Ev 2]] \<rparr>"

section \<open>One playing event per channel\<close>

text \<open>The event references stored in the slots of a channel.\<close>

definition channel_events :: "slot list \<Rightarrow> event_id list" where
  "channel_events ch = concat (map (\<lambda>sl. case sl of Ev e \<Rightarrow> [e] | _ \<Rightarrow> []) ch)"

text \<open>At most one event stored in the channel has \<open>seq.playing\<close> set.\<close>

definition monophonic :: "(event_id \<Rightarrow> event) \<Rightarrow> slot list \<Rightarrow> bool" where
  "monophonic h ch \<longleftrightarrow>
     (\<forall>e \<in> set (channel_events ch). \<forall>e' \<in> set (channel_events ch).
        seq_playing (seq (h e)) \<and> seq_playing (seq (h e')) \<longrightarrow> e = e')"

definition all_monophonic :: "song \<Rightarrow> (event_id \<Rightarrow> event) \<Rightarrow> bool" where
  "all_monophonic activeSong h \<longleftrightarrow>
     (\<forall>p < length (patterns activeSong). \<forall>ch \<in> set (channels (patterns activeSong ! p)).
        monophonic h ch)"

text \<open>No event that is still being recorded has \<open>seq.playing\<close> set.\<close>

definition recording_silent :: "song \<Rightarrow> (event_id \<Rightarrow> event) \<Rightarrow> bool" where
  "recording_silent activeSong h \<longleftrightarrow>
     (\<forall>p < length (patterns activeSong). \<forall>ch \<in> set (channels (patterns activeSong ! p)).
        \<forall>e \<in> set (channel_events ch). ev_recording (h e) \<longrightarrow> \<not> seq_playing (seq (h e)))"

text \<open>Two trigger ranges \<open>[startMeasureOffset, startMeasureOffset + length)\<close> share a time.\<close>

definition overlapping :: "event_seq \<Rightarrow> event_seq \<Rightarrow> bool" where
  "overlapping sq sq' \<longleftrightarrow>
     max (startMeasureOffset sq) (startMeasureOffset sq')
       < min (js_add (startMeasureOffset sq) (seq_length sq))
           (js_add (startMeasureOffset sq') (seq_length sq'))"

text \<open>The song as the editor keeps it: every event stored in a channel of pattern \<open>p\<close> has
  \<open>seq.startMeasure = p\<close>, and the trigger ranges of two different events of one channel
  do not overlap.\<close>

definition well_formed :: "song \<Rightarrow> (event_id \<Rightarrow> event) \<Rightarrow> bool" where
  "well_formed activeSong h \<longleftrightarrow>
     (\<forall>p < length (patterns activeSong). \<forall>ch \<in> set (channels (patterns activeSong ! p)).
        \<forall>e \<in> set (channel_events ch).
          startMeasure (seq (h e)) = int p \<and>
          (\<forall>e' \<in> set (channel_events ch). e \<noteq> e' \<longrightarrow> \<not> overlapping (seq (h e)) (seq (h e'))))"

text \<open>There is a LinkedList for every channel of every pattern.\<close>

definition queue_per_channel :: "song \<Rightarrow> store \<Rightarrow> bool" where
  "queue_per_channel activeSong w \<longleftrightarrow>
     (\<forall>p \<in> set (patterns activeSong). length (channels p) \<le> length (channelQueue w))"

text \<open>Two events that differ at most in \<open>seq.playing\<close> and \<open>seq.mpLength\<close>, the two fields
  the scheduler writes.\<close>

definition same_event :: "event \<Rightarrow> event \<Rightarrow> bool" where
  "same_event ev ev' \<longleftrightarrow>
     action ev' = action ev \<and> instrument ev' = instrument ev \<and>
     ev_recording ev' = ev_recording ev \<and>
     startMeasure (seq ev') = startMeasure (seq ev) \<and>
     startMeasureOffset (seq ev') = startMeasureOffset (seq ev) \<and>
     seq_length (seq ev') = seq_length (seq ev)"

text \<open>The heap \<open>h'\<close> is the heap \<open>h\<close> after the events of \<open>E\<close> were visited by the scan of
  \<open>collect\<close> at \<open>compareTime\<close>, with \<open>a\<close> the active pattern: a visited event that is not
  being recorded and belongs to the active pattern is playing exactly when the time is
  within its trigger range; every other event is as it was.\<close>

definition scanned :: "int \<Rightarrow> real \<Rightarrow> event_id set \<Rightarrow> (event_id \<Rightarrow> event) \<Rightarrow> (event_id \<Rightarrow> event) \<Rightarrow> bool" where
  "scanned a compareTime E h h' \<longleftrightarrow>
     (\<forall>e. same_event (h e) (h' e) \<and>
          seq_playing (seq (h' e)) =
            (if e \<in> E \<and> \<not> ev_recording (h e) \<and> startMeasure (seq (h e)) = a
             then in_trigger_range compareTime (seq (h e))
             else seq_playing (seq (h e))))"

text \<open>The heap \<open>h'\<close> is the heap \<open>h\<close> with \<open>seq.playing\<close> cleared on some events.\<close>

definition quieter :: "(event_id \<Rightarrow> event) \<Rightarrow> (event_id \<Rightarrow> event) \<Rightarrow> bool" where
  "quieter h h' \<longleftrightarrow>
     (\<forall>e. same_event (h e) (h' e) \<and> (seq_playing (seq (h' e)) \<longrightarrow> seq_playing (seq (h e))))"

text \<open>One pattern of four steps whose channel holds a long note over the first two steps
  and a second note that starts on step 1, within the first.\<close>

definition overlap_song :: song where
  "overlap_song =
     \<lparr> tempo = 120,
       patterns = [\<lparr> steps = 4, channels = [[Ev 0, Ev 1, Empty, Empty]] \<rparr>],
       instruments = [7] \<rparr>"

definition overlap_store :: store where
  "overlap_store =
     demo_store\<lparr> heap := (\<lambda>e. demo_event 1 0 0 1)(1 := demo_event 1 0 (1/2) (1/2)) \<rparr>"

text \<open>The same pattern with the first note ending where the second starts.\<close>

definition legato_store :: store where
  "legato_store =
     demo_store\<lparr> heap := (\<lambda>e. demo_event 1 0 0 (1/2))(1 := demo_event 1 0 (1/2) (1/2)) \<rparr>"

section \<open>Double-precision rounding on fractions\<close>

declare round_large.simps [simp del]
declare round_pos.simps [simp del]
declare round_large_frac.simps [simp del]
declare round_pos_frac.simps [simp del]

lemma round_even_fraction:
  assumes "0 < q"
  shows "round_even (of_int p / of_int q) = round_even_frac p q"
proof -
  have fl: "\<lfloor>(of_int p :: real) / of_int q\<rfloor> = p div q"
    by (simp add: floor_divide_of_int_eq)
  have "p = p div q * q + p mod q"
    by simp
  then have "(of_int p :: real) = of_int (p div q) * of_int q + of_int (p mod q)"
    by (metis of_int_add of_int_mult)
  then have "(of_int p :: real) / of_int q = of_int (p div q) + of_int (p mod q) / of_int q"
    using assms by (simp add: field_simps)
  then have r: "(of_int p :: real) / of_int q - of_int (p div q) = of_int (p mod q) / of_int q"
    by simp
  have lt: "(of_int (p mod q) / of_int q < (1/2 :: real)) = (2 * (p mod q) < q)"
  proof -
    have "(of_int (p mod q) / of_int q < (1/2 :: real)) = (of_int (2 * (p mod q)) < (of_int q :: real))"
      using assms by (simp add: field_simps)
    then show ?thesis by (simp only: of_int_less_iff)
  qed
  have gt: "((1/2 :: real) < of_int (p mod q) / of_int q) = (q < 2 * (p mod q))"
  proof -
    have "((1/2 :: real) < of_int (p mod q) / of_int q) = ((of_int q :: real) < of_int (2 * (p mod q)))"
      using assms by (simp add: field_simps)
    then show ?thesis by (simp only: of_int_less_iff)
  qed
  show ?thesis
    by (simp only: round_even_def round_even_frac_def Let_def fl r lt gt)
qed

lemma round_large_fraction:
  assumes "0 < q"
  shows "round_large_frac p q k = 2 ^ k * round_large (of_int p / of_int q)"
  using assms
proof (induction p q k rule: round_large_frac.induct)
  case (1 p q k)
  let ?x = "(of_int p :: real) / of_int q"
  have cmp: "(?x < 2 ^ 53) = (p < 2 ^ 53 * q)"
  proof -
    have "(?x < 2 ^ 53) = ((of_int p :: real) < of_int (2 ^ 53 * q))"
      using "1.prems" by (simp add: field_simps)
    then show ?thesis by (simp only: of_int_less_iff)
  qed
  show ?case
  proof (cases "p < 2 ^ 53 * q")
    case True
    have "round_large_frac p q k = of_int (round_even_frac p q * 2 ^ k)"
      using True "1.prems" by (subst round_large_frac.simps) simp
    moreover have "round_large ?x = of_int (round_even ?x)"
      using True cmp by (subst round_large.simps) simp
    ultimately show ?thesis
      using round_even_fraction [OF "1.prems", of p] by simp
  next
    case False
    have "round_large_frac p q k = round_large_frac p (2 * q) (Suc k)"
      using False "1.prems" by (subst round_large_frac.simps) simp
    also have "\<dots> = 2 ^ Suc k * round_large (of_int p / of_int (2 * q))"
      using False "1.prems" by (intro "1.IH") simp_all
    also have "of_int p / of_int (2 * q) = ?x / 2"
      by simp
    finally have "round_large_frac p q k = 2 ^ k * (2 * round_large (?x / 2))"
      by simp
    moreover have "round_large ?x = 2 * round_large (?x / 2)"
      using False cmp by (subst round_large.simps) simp
    ultimately show ?thesis by simp
  qed
qed

lemma round_pos_fraction:
  assumes "0 < q"
  shows "round_pos_frac p q k = round_pos (of_int p / of_int q) / 2 ^ k"
  using assms
proof (induction p q k rule: round_pos_frac.induct)
  case (1 p q k)
  let ?x = "(of_int p :: real) / of_int q"
  have pos: "(?x \<le> 0) = (p \<le> 0)"
    using "1.prems" by (simp add: field_simps)
  have cmp: "(?x < 2 ^ 52) = (p < 2 ^ 52 * q)"
  proof -
    have "(?x < 2 ^ 52) = ((of_int p :: real) < of_int (2 ^ 52 * q))"
      using "1.prems" by (simp add: field_simps)
    then show ?thesis by (simp only: of_int_less_iff)
  qed
  show ?case
  proof (cases "p \<le> 0")
    case True
    have "round_pos_frac p q k = 0"
      using True by (subst round_pos_frac.simps) simp
    moreover have "round_pos ?x = 0"
      using True pos by (subst round_pos.simps) simp
    ultimately show ?thesis by simp
  next
    case False
    show ?thesis
    proof (cases "p < 2 ^ 52 * q")
      case True
      have "round_pos_frac p q k = round_pos_frac (2 * p) q (Suc k)"
        using True False "1.prems" by (subst round_pos_frac.simps) simp
      also have "\<dots> = round_pos (of_int (2 * p) / of_int q) / 2 ^ Suc k"
        using True False "1.prems" by (intro "1.IH") simp_all
      also have "of_int (2 * p) / of_int q = 2 * ?x"
        by simp
      finally have F: "round_pos_frac p q k = (round_pos (2 * ?x) / 2) / 2 ^ k"
        by simp
      have G: "round_pos ?x = round_pos (2 * ?x) / 2"
        using True False pos cmp by (subst round_pos.simps) simp
      show ?thesis
        unfolding G by (rule F)
    next
      case large: False
      have "round_pos_frac p q k = round_large_frac p q 0 / of_int (2 ^ k)"
        using large False "1.prems" by (subst round_pos_frac.simps) simp
      moreover have "round_pos ?x = round_large ?x"
        using large False pos cmp by (subst round_pos.simps) simp
      ultimately show ?thesis
        using round_large_fraction [OF "1.prems", of p 0] by simp
    qed
  qed
qed

lemma round_pos_code [code]:
  "round_pos (Ratreal r) = (case quotient_of r of (p, q) \<Rightarrow> round_pos_frac p q 0)"
proof -
  obtain p q where pq: "quotient_of r = (p, q)"
    by (cases "quotient_of r")
  have q: "0 < q"
    using pq by (rule quotient_of_denom_pos)
  have "r = of_int p / of_int q"
    using pq by (rule quotient_of_div)
  then have "Ratreal r = of_int p / of_int q"
    by (simp add: of_rat_divide)
  then show ?thesis
    using round_pos_fraction [OF q, of p 0] pq by simp
qed

text \<open>Some roundings: one tenth and one third, and ties above \<open>2 ^ 53\<close>, where the
  doubles are the even integers.\<close>

lemma round_double_examples:
  "round_double (1 / 10) = 3602879701896397 / 2 ^ 55"
  "round_double (1 / 3) = 6004799503160661 / 2 ^ 54"
  "round_double (- (1 / 3)) = - (6004799503160661 / 2 ^ 54)"
  "round_double (2 ^ 53 + 1) = 2 ^ 53"
  "round_double (2 ^ 53 + 3) = 2 ^ 53 + 4"
  "round_double (3 / 8) = 3 / 8"
  by code_simp+

text \<open>A rounded result is within a relative error of \<open>2 ^ - 53\<close> of the exact one.\<close>

lemma round_even_error: "\<bar>of_int (round_even x) - x\<bar> \<le> 1/2"
  unfolding round_even_def Let_def by (auto; linarith)

lemma abs_twice: "\<bar>2 * a - x\<bar> = 2 * \<bar>a - x / 2\<bar>" for a x :: real
  by (simp add: abs_if)

lemma abs_half: "\<bar>a / 2 - x\<bar> = \<bar>a - 2 * x\<bar> / 2" for a x :: real
  by (simp add: abs_if)

lemma round_large_error:
  "2 ^ 52 \<le> x \<Longrightarrow> \<bar>round_large x - x\<bar> \<le> x / 2 ^ 53"
proof (induction x rule: round_large.induct)
  case (1 x)
  show ?case
  proof (cases "x < 2 ^ 53")
    case True
    have "\<bar>round_large x - x\<bar> \<le> 1/2"
      using True round_even_error [of x] by (subst round_large.simps) simp
    moreover have "(1::real)/2 \<le> x / 2 ^ 53"
      using 1(2) by simp
    ultimately show ?thesis by linarith
  next
    case False
    then have "2 ^ 52 \<le> x / 2" by simp
    with 1(1) False have ih: "\<bar>round_large (x / 2) - x / 2\<bar> \<le> (x / 2) / 2 ^ 53"
      by simp
    have "round_large x = 2 * round_large (x / 2)"
      using False by (subst round_large.simps) simp
    moreover have "\<bar>2 * round_large (x / 2) - x\<bar> = 2 * \<bar>round_large (x / 2) - x / 2\<bar>"
      by (rule abs_twice)
    ultimately show ?thesis
      using ih by linarith
  qed
qed

lemma round_pos_error:
  "0 < x \<Longrightarrow> \<bar>round_pos x - x\<bar> \<le> x / 2 ^ 53"
proof (induction x rule: round_pos.induct)
  case (1 x)
  show ?case
  proof (cases "x < 2 ^ 52")
    case True
    with 1 have ih: "\<bar>round_pos (2 * x) - 2 * x\<bar> \<le> (2 * x) / 2 ^ 53"
      by simp
    have "round_pos x = round_pos (2 * x) / 2"
      using True 1(2) by (subst round_pos.simps) simp
    moreover have "\<bar>round_pos (2 * x) / 2 - x\<bar> = \<bar>round_pos (2 * x) - 2 * x\<bar> / 2"
      by (rule abs_half)
    ultimately show ?thesis
      using ih by linarith
  next
    case False
    then have "round_pos x = round_large x"
      using 1(2) by (subst round_pos.simps) simp
    then show ?thesis
      using round_large_error [of x] False by simp
  qed
qed

lemma round_double_error: "\<bar>round_double x - x\<bar> \<le> \<bar>x\<bar> / 2 ^ 53"
proof -
  consider "x < 0" | "x = 0" | "0 < x" by linarith
  then show ?thesis
  proof cases
    case 1
    then show ?thesis
      using round_pos_error [of "- x"] by (simp add: round_double_def)
  next
    case 2
    then show ?thesis
      by (simp add: round_double_def round_pos.simps)
  next
    case 3
    then show ?thesis
      using round_pos_error [of x] by (simp add: round_double_def)
  qed
qed

lemma js_add_error: "\<bar>(js_add a b - a) - b\<bar> \<le> \<bar>a + b\<bar> / 2 ^ 53"
  using round_double_error [of "a + b"] by (simp add: js_add_def algebra_simps)

text \<open>At 120 BPM and four steps to the bar a step lasts half a second.\<close>

lemma demo_step_length: "js_add 0 (js_div (js_mul (js_div 60 120) 4) 4) = 1/2"
  by code_simp

section \<open>Frame and trace lemmas\<close>

declare reduce_loop.simps [simp del]
declare expand_loop.simps [simp del]
declare collect_loop.simps [simp del]

lemma kill_playing_frame: "\<exists>s. kill_playing q t w = w\<lparr> sink := s \<rparr>"
proof (induction q arbitrary: w)
  case Nil
  have "w = w\<lparr> sink := sink w \<rparr>" by simp
  then show ?case by (metis kill_playing.simps(1))
next
  case (Cons e q)
  obtain s where "kill_playing q t (dequeueEvent e t w) = (dequeueEvent e t w)\<lparr> sink := s \<rparr>"
    using Cons.IH by blast
  then have "kill_playing (e # q) t w = w\<lparr> sink := s \<rparr>"
    by (simp add: dequeueEvent_def)
  then show ?case by blast
qed

lemma kill_playing_sink: "sink (kill_playing q t w) = sink w @ map (\<lambda>e. NoteOff e t) q"
  by (induction q arbitrary: w) (simp_all add: dequeueEvent_def)

lemma kill_playing_fields [simp]:
  "playing (kill_playing q t w) = playing w"
  "looping (kill_playing q t w) = looping w"
  "recording (kill_playing q t w) = recording w"
  "scheduleAheadTime (kill_playing q t w) = scheduleAheadTime w"
  "stepPrecision (kill_playing q t w) = stepPrecision w"
  "beatAmount (kill_playing q t w) = beatAmount w"
  "channelQueue (kill_playing q t w) = channelQueue w"
  "activePattern (kill_playing q t w) = activePattern w"
  "measureStartTime (kill_playing q t w) = measureStartTime w"
  "firstMeasureStartTime (kill_playing q t w) = firstMeasureStartTime w"
  "currentStep (kill_playing q t w) = currentStep w"
  "nextNoteTime (kill_playing q t w) = nextNoteTime w"
  "st_channels (kill_playing q t w) = st_channels w"
  "metronome (kill_playing q t w) = metronome w"
  "heap (kill_playing q t w) = heap w"
  using kill_playing_frame [of q t w] by auto

lemma stop_playing_frame: "\<exists>h s. stop_playing q t w = w\<lparr> heap := h, sink := s \<rparr>"
proof (induction q arbitrary: w)
  case Nil
  have "w = w\<lparr> heap := heap w, sink := sink w \<rparr>" by simp
  then show ?case by (metis stop_playing.simps(1))
next
  case (Cons e q)
  obtain h s where "stop_playing q t (set_seq_playing e False (dequeueEvent e t w))
      = (set_seq_playing e False (dequeueEvent e t w))\<lparr> heap := h, sink := s \<rparr>"
    using Cons.IH by blast
  then have "stop_playing (e # q) t w = w\<lparr> heap := h, sink := s \<rparr>"
    by (simp add: set_seq_playing_def dequeueEvent_def)
  then show ?case by blast
qed

lemma stop_all_frame: "\<exists>h s. stop_all qs t w = w\<lparr> heap := h, sink := s \<rparr>"
proof (induction qs arbitrary: w)
  case Nil
  have "w = w\<lparr> heap := heap w, sink := sink w \<rparr>" by simp
  then show ?case by (metis stop_all.simps(1))
next
  case (Cons q qs)
  obtain h s where a: "stop_playing q t w = w\<lparr> heap := h, sink := s \<rparr>"
    using stop_playing_frame by blast
  obtain h' s' where "stop_all qs t (w\<lparr> heap := h, sink := s \<rparr>)
      = (w\<lparr> heap := h, sink := s \<rparr>)\<lparr> heap := h', sink := s' \<rparr>"
    using Cons.IH by blast
  then have "stop_all (q # qs) t w = w\<lparr> heap := h', sink := s' \<rparr>"
    using a by simp
  then show ?case by blast
qed

lemma stop_all_fields [simp]:
  "playing (stop_all qs t w) = playing w"
  "looping (stop_all qs t w) = looping w"
  "recording (stop_all qs t w) = recording w"
  "scheduleAheadTime (stop_all qs t w) = scheduleAheadTime w"
  "stepPrecision (stop_all qs t w) = stepPrecision w"
  "beatAmount (stop_all qs t w) = beatAmount w"
  "channelQueue (stop_all qs t w) = channelQueue w"
  "activePattern (stop_all qs t w) = activePattern w"
  "measureStartTime (stop_all qs t w) = measureStartTime w"
  "firstMeasureStartTime (stop_all qs t w) = firstMeasureStartTime w"
  "currentStep (stop_all qs t w) = currentStep w"
  "nextNoteTime (stop_all qs t w) = nextNoteTime w"
  "st_channels (stop_all qs t w) = st_channels w"
  "metronome (stop_all qs t w) = metronome w"
  using stop_all_frame [of qs t w] by auto

lemma stop_playing_sink: "sink (stop_playing q t w) = sink w @ map (\<lambda>e. NoteOff e t) q"
  by (induction q arbitrary: w) (simp_all add: dequeueEvent_def set_seq_playing_def)

lemma stop_playing_heap:
  "heap (stop_playing q t w) = (\<lambda>e. if e \<in> set q then clear_playing (heap w e) else heap w e)"
  by (induction q arbitrary: w)
     (auto simp add: dequeueEvent_def set_seq_playing_def clear_playing_def fun_eq_iff)

lemma stop_all_sink: "sink (stop_all qs t w) = sink w @ map (\<lambda>e. NoteOff e t) (concat qs)"
  by (induction qs arbitrary: w) (simp_all add: stop_playing_sink)

lemma stop_all_heap:
  "heap (stop_all qs t w) =
     (\<lambda>e. if e \<in> set (concat qs) then clear_playing (heap w e) else heap w e)"
  by (induction qs arbitrary: w) (auto simp add: stop_playing_heap fun_eq_iff clear_playing_def)

section \<open>The subdivision of step\<close>

lemma setPosition_nextNoteTime:
  "nextNoteTime (state_of (setPosition audio sng p (Some t) w)) = t"
  by (simp add: setPosition_def Let_def split: option.splits)

lemma step_position_nextNoteTime:
  "nextNoteTime (state_of (step_position audio sng w)) = nextNoteTime w"
proof (cases "setPosition audio sng (activePattern w) (Some (nextNoteTime w)) w")
  case (Returned w1)
  then have "nextNoteTime w1 = nextNoteTime w"
    using setPosition_nextNoteTime [of audio sng "activePattern w" "nextNoteTime w" w] by simp
  then show ?thesis
    by (simp add: step_position_def Returned setActivePattern_def Let_def split: option.splits)
next
  case (Thrown err w1)
  then have "nextNoteTime w1 = nextNoteTime w"
    using setPosition_nextNoteTime [of audio sng "activePattern w" "nextNoteTime w" w] by simp
  then show ?thesis
    by (simp add: step_position_def Thrown)
qed

lemma step_nextNoteTime:
  "nextNoteTime (state_of (step audio sng w)) =
     js_add (nextNoteTime w) (js_div (js_mul (js_div 60 (tempo sng)) 4) (real_of_int (stepPrecision w)))"
  by (simp add: step_def Let_def step_position_nextNoteTime setCurrentStep_def
      setActivePattern_def gotoNextPattern_def setPlaying_def)

lemma step_no_wrap:
  assumes "currentStep w + 1 \<noteq> stepPrecision w"
  shows "step audio sng w = Returned (w\<lparr> nextNoteTime :=
           js_add (nextNoteTime w)
             (js_div (js_mul (js_div 60 (tempo sng)) 4) (real_of_int (stepPrecision w))),
           currentStep := currentStep w + 1 \<rparr>)"
  using assms by (simp add: step_def Let_def setCurrentStep_def)

lemma step_times_nextNoteTime:
  assumes "currentStep w + int n = stepPrecision w" and "0 < n"
  shows "nextNoteTime (state_of (step_times n audio sng w)) =
     ((\<lambda>t. js_add t (js_div (js_mul (js_div 60 (tempo sng)) 4) (real_of_int (stepPrecision w)))) ^^ n)
       (nextNoteTime w)"
  using assms
proof (induction n arbitrary: w)
  case 0
  then show ?case by simp
next
  case (Suc n)
  define d where "d = js_div (js_mul (js_div 60 (tempo sng)) 4) (real_of_int (stepPrecision w))"
  show ?case
  proof (cases "n = 0")
    case True
    have "state_of (step_times (Suc 0) audio sng w) = state_of (step audio sng w)"
      by (cases "step audio sng w") simp_all
    then show ?thesis
      using True by (simp add: step_nextNoteTime)
  next
    case False
    let ?w1 = "w\<lparr> nextNoteTime := js_add (nextNoteTime w) d, currentStep := currentStep w + 1 \<rparr>"
    have nowrap: "currentStep w + 1 \<noteq> stepPrecision w"
      using Suc.prems False by simp
    have st: "step audio sng w = Returned ?w1"
      using step_no_wrap [OF nowrap] by (simp only: d_def)
    have "nextNoteTime (state_of (step_times n audio sng ?w1)) =
        ((\<lambda>t. js_add t (js_div (js_mul (js_div 60 (tempo sng)) 4) (real_of_int (stepPrecision ?w1)))) ^^ n)
          (nextNoteTime ?w1)"
      using Suc.prems False by (intro Suc.IH) simp_all
    then have "nextNoteTime (state_of (step_times n audio sng ?w1)) =
        ((\<lambda>t. js_add t d) ^^ n) (js_add (nextNoteTime w) d)"
      by (simp add: d_def)
    moreover have "step_times (Suc n) audio sng w = step_times n audio sng ?w1"
      by (simp add: st)
    moreover have "((\<lambda>t. js_add t d) ^^ Suc n) (nextNoteTime w) =
        ((\<lambda>t. js_add t d) ^^ n) (js_add (nextNoteTime w) d)"
      by (simp only: funpow_Suc_right o_apply)
    ultimately have "nextNoteTime (state_of (step_times (Suc n) audio sng w)) =
        ((\<lambda>t. js_add t d) ^^ Suc n) (nextNoteTime w)"
      by (simp only:)
    then show ?thesis
      by (simp only: d_def)
  qed
qed

text \<open>
  Claim C9, as the code has it. Every call of \<open>step\<close>, whether it returns, returns early
  or throws, sets \<open>nextNoteTime\<close> to the double-precision sum of \<open>nextNoteTime\<close> and the
  subdivision \<open>((60 / tempo) * 4) / stepPrecision\<close>: the increase is the subdivision up to
  the rounding of that sum, at most \<open>|nextNoteTime + subdivision| / 2 ^ 53\<close>. And \<open>S\<close>
  successive calls, for a step precision \<open>S\<close> and starting at \<open>currentStep = 0\<close>, perform
  \<open>S\<close> such additions one after the other.
\<close>

theorem step_subdivision:
  "(tempo sng \<noteq> 0 \<and> stepPrecision w \<noteq> 0 \<longrightarrow>
      nextNoteTime (state_of (step audio sng w)) =
        js_add (nextNoteTime w)
          (js_div (js_mul (js_div 60 (tempo sng)) 4) (real_of_int (stepPrecision w))) \<and>
      \<bar>(nextNoteTime (state_of (step audio sng w)) - nextNoteTime w)
          - js_div (js_mul (js_div 60 (tempo sng)) 4) (real_of_int (stepPrecision w))\<bar>
        \<le> \<bar>nextNoteTime w
             + js_div (js_mul (js_div 60 (tempo sng)) 4) (real_of_int (stepPrecision w))\<bar> / 2 ^ 53) \<and>
   (tempo sng \<noteq> 0 \<and> 0 < S \<and> stepPrecision w = int S \<and> currentStep w = 0 \<longrightarrow>
      nextNoteTime (state_of (step_times S audio sng w)) =
        ((\<lambda>t. js_add t (js_div (js_mul (js_div 60 (tempo sng)) 4) (real S))) ^^ S) (nextNoteTime w))"
proof (intro conjI impI)
  show "nextNoteTime (state_of (step audio sng w)) =
        js_add (nextNoteTime w)
          (js_div (js_mul (js_div 60 (tempo sng)) 4) (real_of_int (stepPrecision w)))"
    by (rule step_nextNoteTime)
next
  show "\<bar>(nextNoteTime (state_of (step audio sng w)) - nextNoteTime w)
          - js_div (js_mul (js_div 60 (tempo sng)) 4) (real_of_int (stepPrecision w))\<bar>
        \<le> \<bar>nextNoteTime w
             + js_div (js_mul (js_div 60 (tempo sng)) 4) (real_of_int (stepPrecision w))\<bar> / 2 ^ 53"
    by (simp only: step_nextNoteTime js_add_error)
next
  assume a: "tempo sng \<noteq> 0 \<and> 0 < S \<and> stepPrecision w = int S \<and> currentStep w = 0"
  then have "nextNoteTime (state_of (step_times S audio sng w)) =
      ((\<lambda>t. js_add t (js_div (js_mul (js_div 60 (tempo sng)) 4) (real_of_int (stepPrecision w)))) ^^ S)
        (nextNoteTime w)"
    by (intro step_times_nextNoteTime) simp_all
  with a show "nextNoteTime (state_of (step_times S audio sng w)) =
        ((\<lambda>t. js_add t (js_div (js_mul (js_div 60 (tempo sng)) 4) (real S))) ^^ S) (nextNoteTime w)"
    by simp
qed

theorem step_subdivision_witness:
  "tempo song_140 \<noteq> 0 \<and> stepPrecision store_16 \<noteq> 0 \<and> (0::nat) < 16 \<and>
   stepPrecision store_16 = int 16 \<and> currentStep store_16 = 0 \<and>
   nextNoteTime (state_of (step demo_audio song_140 store_16)) = 7720456504063707 / 2 ^ 56 \<and>
   nextNoteTime (state_of (step_times 16 demo_audio song_140 store_16)) = 1930114126015927 / 2 ^ 50 \<and>
   ((\<lambda>t. js_add t (js_div (js_mul (js_div 60 (tempo song_140)) 4) (real 16))) ^^ 16)
      (nextNoteTime store_16) = 1930114126015927 / 2 ^ 50"
proof -
  have h: "tempo song_140 \<noteq> 0" "stepPrecision store_16 \<noteq> 0" "(0::nat) < 16"
    "stepPrecision store_16 = int 16" "currentStep store_16 = 0"
    by (simp_all add: song_140_def store_16_def demo_song_def demo_store_def)
  have e1: "js_add (nextNoteTime store_16)
          (js_div (js_mul (js_div 60 (tempo song_140)) 4) (real_of_int (stepPrecision store_16)))
        = 7720456504063707 / 2 ^ 56"
    by code_simp
  have e2: "nextNoteTime (state_of (step_times 16 demo_audio song_140 store_16))
        = 1930114126015927 / 2 ^ 50"
    by code_simp
  from step_subdivision [of song_140 store_16 demo_audio 16] h
  have s1: "nextNoteTime (state_of (step demo_audio song_140 store_16)) =
        js_add (nextNoteTime store_16)
          (js_div (js_mul (js_div 60 (tempo song_140)) 4) (real_of_int (stepPrecision store_16)))"
    and s2: "nextNoteTime (state_of (step_times 16 demo_audio song_140 store_16)) =
        ((\<lambda>t. js_add t (js_div (js_mul (js_div 60 (tempo song_140)) 4) (real 16))) ^^ 16)
          (nextNoteTime store_16)"
    by blast+
  have "nextNoteTime (state_of (step demo_audio song_140 store_16)) = 7720456504063707 / 2 ^ 56"
    by (simp only: s1 e1)
  moreover have "((\<lambda>t. js_add t (js_div (js_mul (js_div 60 (tempo song_140)) 4) (real 16))) ^^ 16)
      (nextNoteTime store_16) = 1930114126015927 / 2 ^ 50"
    using s2 e2 by (simp only:)
  ultimately show ?thesis
    using h e2 by blast
qed

text \<open>At tempo 140 and a step precision of 16 the subdivision is 0.10714285714285714. A
  call of \<open>step\<close> at \<open>nextNoteTime = 1\<close> yields 1.1071428571428572, an increase by
  0.1071428571428572; and sixteen calls from 0 yield 1.7142857142857144, where
  \<open>(60 / 140) * 4\<close> is 1.7142857142857142 in double precision.\<close>

theorem step_subdivision_counterexample:
  "js_div (js_mul (js_div 60 (tempo song_140)) 4) (real_of_int (stepPrecision store_16))
     = 7720456504063707 / 2 ^ 56 \<and>
   (case step demo_audio song_140 (store_16\<lparr> nextNoteTime := 1 \<rparr>) of
      Returned w' \<Rightarrow>
        nextNoteTime w' = 2493064079437239 / 2 ^ 51 \<and>
        js_sub (nextNoteTime w') 1 = 241264265751991 / 2 ^ 51 \<and>
        nextNoteTime w' - 1
          \<noteq> js_div (js_mul (js_div 60 (tempo song_140)) 4) (real_of_int (stepPrecision store_16))
    | Thrown err w' \<Rightarrow> False) \<and>
   js_mul (js_div 60 (tempo song_140)) 4 = 7720456504063707 / 2 ^ 52 \<and>
   nextNoteTime store_16 = 0 \<and>
   (case step_times 16 demo_audio song_140 store_16 of
      Returned w' \<Rightarrow>
        nextNoteTime w' = 1930114126015927 / 2 ^ 50 \<and>
        nextNoteTime w' - nextNoteTime store_16 \<noteq> js_mul (js_div 60 (tempo song_140)) 4 \<and>
        nextNoteTime w' - nextNoteTime store_16 \<noteq> (60 / 140) * 4
    | Thrown err w' \<Rightarrow> False)"
  by code_simp

section \<open>enqueueEvent\<close>

text \<open>
  Claim C2. When an event whose action is not 0 is enqueued for a channel whose list is
  not empty, the AudioService receives the noteOn of the new event at \<open>nextNoteTime\<close>
  first, then one noteOff at that same \<open>nextNoteTime\<close> for every event of the list, from
  its head on, and the list is emptied; a noteOn (action 1) is then added, so that the
  list holds exactly this event, and any other event is dequeued itself (the last
  command) and leaves the list empty. The lists of the other channels stay as they are.
\<close>

theorem enqueueEvent_kills_queue:
  assumes "action (heap w e) \<noteq> 0"
    and "eventChannel < length (channelQueue w)"
    and "channelQueue w ! eventChannel \<noteq> []"
  shows "\<exists>w'. enqueueEvent sng e eventChannel w = Returned w' \<and>
     sink w' = sink w
        @ [NoteOn e (array_get (instruments sng) (instrument (heap w e))) (nextNoteTime w)]
        @ map (\<lambda>playingNote. NoteOff playingNote (nextNoteTime w)) (channelQueue w ! eventChannel)
        @ (if action (heap w e) = 1 then []
           else [NoteOff e (js_add (nextNoteTime w) (mpLength (seq (heap w' e))))]) \<and>
     channelQueue w' ! eventChannel = (if action (heap w e) = 1 then [e] else []) \<and>
     (\<forall>c. c \<noteq> eventChannel \<longrightarrow> channelQueue w' ! c = channelQueue w ! c)"
  using assms
  by (simp add: enqueueEvent_def Let_def set_seq_playing_def set_seq_mpLength_def
      kill_playing_sink dequeueEvent_def)

theorem enqueueEvent_kills_queue_witness:
  "action (heap (demo_store\<lparr> channelQueue := [[0]] \<rparr>) 1) \<noteq> 0 \<and>
   0 < length (channelQueue (demo_store\<lparr> channelQueue := [[0]] \<rparr>)) \<and>
   channelQueue (demo_store\<lparr> channelQueue := [[0]] \<rparr>) ! 0 \<noteq> [] \<and>
   (\<exists>w'. enqueueEvent demo_song 1 0 (demo_store\<lparr> channelQueue := [[0]] \<rparr>) = Returned w' \<and>
      sink w' = [NoteOn 1 (Some 7) 0, NoteOff 0 0] \<and> channelQueue w' ! 0 = [1])"
proof -
  let ?w = "demo_store\<lparr> channelQueue := [[0]] \<rparr>"
  have h1: "action (heap ?w 1) \<noteq> 0"
    by (simp add: demo_store_def demo_heap_def demo_event_def)
  have h2: "0 < length (channelQueue ?w)"
    by (simp add: demo_store_def)
  have h3: "channelQueue ?w ! 0 \<noteq> []"
    by (simp add: demo_store_def)
  from enqueueEvent_kills_queue [OF h1 h2 h3, of demo_song]
  obtain w' where "enqueueEvent demo_song 1 0 ?w = Returned w'"
    and "sink w' = sink ?w
        @ [NoteOn 1 (array_get (instruments demo_song) (instrument (heap ?w 1))) (nextNoteTime ?w)]
        @ map (\<lambda>playingNote. NoteOff playingNote (nextNoteTime ?w)) (channelQueue ?w ! 0)
        @ (if action (heap ?w 1) = 1 then []
           else [NoteOff 1 (js_add (nextNoteTime ?w) (mpLength (seq (heap w' 1))))])"
    and "channelQueue w' ! 0 = (if action (heap ?w 1) = 1 then [1] else [])"
    by blast
  then have "enqueueEvent demo_song 1 0 ?w = Returned w' \<and>
      sink w' = [NoteOn 1 (Some 7) 0, NoteOff 0 0] \<and> channelQueue w' ! 0 = [1]"
    by (simp add: demo_store_def demo_heap_def demo_event_def demo_song_def array_get_def)
  then show ?thesis
    using h1 h2 h3 by blast
qed

text \<open>
  Claim C8, as the code has it. Enqueueing an event whose action is 0 (a module parameter
  change) emits exactly two commands, the noteOn of the event at \<open>t_on = nextNoteTime\<close>
  and its noteOff at \<open>t_off\<close>, the double-precision sum of \<open>nextNoteTime\<close> and \<open>mpLength\<close>,
  so that \<open>t_off - t_on\<close> is \<open>mpLength\<close> up to the rounding of that sum, at most
  \<open>|t_on + mpLength| / 2 ^ 53\<close>. Here \<open>mpLength\<close> is \<open>((60 / tempo) * beatAmount) / steps\<close>
  of the active pattern, computed in double precision, and 0 when there is no active
  pattern. The lists of all channels are left as they were, so the event is not added to
  one. The tempo and the step count of the pattern are taken to be non-zero.
\<close>

theorem enqueueEvent_module_param:
  assumes "action (heap w e) = 0"
    and "tempo sng \<noteq> 0"
    and "\<forall>p. array_get (patterns sng) (activePattern w) = Some p \<longrightarrow> steps p \<noteq> 0"
  shows "\<exists>w' t_on t_off.
     enqueueEvent sng e eventChannel w = Returned w' \<and>
     sink w' = sink w @ [NoteOn e (array_get (instruments sng) (instrument (heap w e))) t_on,
                         NoteOff e t_off] \<and>
     t_on = nextNoteTime w \<and>
     t_off = js_add t_on (mpLength (seq (heap w' e))) \<and>
     \<bar>(t_off - t_on) - mpLength (seq (heap w' e))\<bar>
       \<le> \<bar>t_on + mpLength (seq (heap w' e))\<bar> / 2 ^ 53 \<and>
     mpLength (seq (heap w' e)) =
       (case array_get (patterns sng) (activePattern w) of
          Some p \<Rightarrow> js_div (js_mul (js_div 60 (tempo sng)) (beatAmount w)) (real (steps p))
        | None \<Rightarrow> 0) \<and>
     channelQueue w' = channelQueue w"
proof -
  from assms obtain w' where r: "enqueueEvent sng e eventChannel w = Returned w'"
    and k: "sink w' = sink w
        @ [NoteOn e (array_get (instruments sng) (instrument (heap w e))) (nextNoteTime w),
           NoteOff e (js_add (nextNoteTime w) (mpLength (seq (heap w' e))))]"
    and m: "mpLength (seq (heap w' e)) =
       (case array_get (patterns sng) (activePattern w) of
          Some p \<Rightarrow> js_div (js_mul (js_div 60 (tempo sng)) (beatAmount w)) (real (steps p))
        | None \<Rightarrow> 0)"
    and q: "channelQueue w' = channelQueue w"
    by (simp add: enqueueEvent_def Let_def set_seq_playing_def set_seq_mpLength_def
        dequeueEvent_def split: option.splits)
  have "\<bar>(js_add (nextNoteTime w) (mpLength (seq (heap w' e))) - nextNoteTime w)
          - mpLength (seq (heap w' e))\<bar>
       \<le> \<bar>nextNoteTime w + mpLength (seq (heap w' e))\<bar> / 2 ^ 53"
    by (rule js_add_error)
  with r k m q show ?thesis
    by blast
qed

theorem enqueueEvent_module_param_witness:
  "action (heap (demo_store\<lparr> activePattern := 1, channelQueue := [[0]], nextNoteTime := 1 \<rparr>) 2) = 0 \<and>
   tempo song_90 \<noteq> 0 \<and>
   array_get (patterns song_90) 1 = Some (patterns song_90 ! 1) \<and>
   steps (patterns song_90 ! 1) \<noteq> 0 \<and>
   (\<exists>w'. enqueueEvent song_90 2 0
            (demo_store\<lparr> activePattern := 1, channelQueue := [[0]], nextNoteTime := 1 \<rparr>)
            = Returned w' \<and>
          sink w' = [NoteOn 2 (Some 7) 1, NoteOff 2 (3752999689475413 / 2 ^ 51)] \<and>
          mpLength (seq (heap w' 2)) = 6004799503160661 / 2 ^ 53 \<and>
          channelQueue w' = [[0]])"
proof -
  let ?w = "demo_store\<lparr> activePattern := 1, channelQueue := [[0]], nextNoteTime := 1 \<rparr>"
  have h1: "action (heap ?w 2) = 0"
    by (simp add: demo_store_def demo_heap_def demo_event_def)
  have h2: "tempo song_90 \<noteq> 0"
    by (simp add: song_90_def)
  have g: "array_get (patterns song_90) 1 = Some (patterns song_90 ! 1)"
    by (simp add: song_90_def demo_song_def array_get_def)
  have s: "steps (patterns song_90 ! 1) \<noteq> 0"
    by (simp add: song_90_def demo_song_def)
  have h3: "\<forall>p. array_get (patterns song_90) (activePattern ?w) = Some p \<longrightarrow> steps p \<noteq> 0"
    using g s by simp
  have e1: "js_div (js_mul (js_div 60 (tempo song_90)) (beatAmount ?w))
              (real (steps (patterns song_90 ! 1))) = 6004799503160661 / 2 ^ 53"
    by code_simp
  have e2: "js_add 1 (6004799503160661 / 2 ^ 53) = 3752999689475413 / 2 ^ 51"
    by code_simp
  from enqueueEvent_module_param [OF h1 h2 h3, of 0]
  obtain w' t_on t_off where r: "enqueueEvent song_90 2 0 ?w = Returned w'"
    and k: "sink w' = sink ?w @ [NoteOn 2 (array_get (instruments song_90) (instrument (heap ?w 2))) t_on,
                         NoteOff 2 t_off]"
    and on: "t_on = nextNoteTime ?w"
    and off: "t_off = js_add t_on (mpLength (seq (heap w' 2)))"
    and m: "mpLength (seq (heap w' 2)) =
       (case array_get (patterns song_90) (activePattern ?w) of
          Some p \<Rightarrow> js_div (js_mul (js_div 60 (tempo song_90)) (beatAmount ?w)) (real (steps p))
        | None \<Rightarrow> 0)"
    and q: "channelQueue w' = channelQueue ?w"
    by blast
  have m': "mpLength (seq (heap w' 2)) = 6004799503160661 / 2 ^ 53"
    using m g e1 by simp
  have on': "t_on = 1"
    using on by simp
  have off': "t_off = 3752999689475413 / 2 ^ 51"
    using e2 by (simp only: off on' m')
  have "sink w' = [NoteOn 2 (Some 7) 1, NoteOff 2 (3752999689475413 / 2 ^ 51)]"
    unfolding k on' off'
    by (simp add: demo_store_def demo_heap_def demo_event_def song_90_def demo_song_def array_get_def)
  moreover have "channelQueue w' = [[0]]"
    using q by simp
  ultimately show ?thesis
    using h1 h2 g s r m' by blast
qed

text \<open>At tempo 90, four beats and four steps, \<open>mpLength\<close> is 0.6666666666666666. Enqueued at
  \<open>nextNoteTime = 1\<close>, the event gets its noteOff at 1.6666666666666665, and the
  difference 0.6666666666666665 of the two times, which a double holds exactly, is not
  \<open>mpLength\<close>.\<close>

theorem enqueueEvent_module_param_counterexample:
  "(case enqueueEvent song_90 2 0
           (demo_store\<lparr> activePattern := 1, channelQueue := [[0]], nextNoteTime := 1 \<rparr>) of
      Returned w' \<Rightarrow>
        sink w' = [NoteOn 2 (Some 7) 1, NoteOff 2 (3752999689475413 / 2 ^ 51)] \<and>
        mpLength (seq (heap w' 2)) = 6004799503160661 / 2 ^ 53 \<and>
        js_sub (3752999689475413 / 2 ^ 51) 1 = 1501199875790165 / 2 ^ 51 \<and>
        3752999689475413 / 2 ^ 51 - 1 \<noteq> mpLength (seq (heap w' 2))
    | Thrown err w' \<Rightarrow> False)"
  by code_simp

section \<open>setPosition\<close>

text \<open>
  Claim C7. For every state and every time \<open>t\<close>, \<open>setPosition\<close> with pattern 0, on a song
  that has a pattern, returns, has emitted \<open>noteOff(event, t)\<close> for every entry of every
  list of \<open>channelQueue\<close> (list by list, each from its head), has cleared \<open>seq.playing\<close>
  of each of these events, and leaves every list empty.
\<close>

theorem setPosition_start_flushes:
  assumes "patterns sng \<noteq> []"
  shows "\<exists>w'. setPosition audio sng 0 (Some t) w = Returned w' \<and>
     sink w' = sink w @ map (\<lambda>e. NoteOff e t) (concat (channelQueue w)) \<and>
     (\<forall>e \<in> set (concat (channelQueue w)). \<not> seq_playing (seq (heap w' e))) \<and>
     length (channelQueue w') = length (channelQueue w) \<and>
     (\<forall>list \<in> set (channelQueue w'). list = [])"
proof -
  have "array_get (patterns sng) 0 = Some (patterns sng ! 0)"
    using assms by (simp add: array_get_def)
  then show ?thesis
    using assms
    by (auto simp add: setPosition_def Let_def stop_all_sink stop_all_heap clear_playing_def)
qed

theorem setPosition_start_flushes_witness:
  "patterns demo_song \<noteq> [] \<and>
   (\<exists>w'. setPosition demo_audio demo_song 0 (Some 3)
            (demo_store\<lparr> activePattern := 1, channelQueue := [[1, 0]] \<rparr>) = Returned w' \<and>
      sink w' = [NoteOff 1 3, NoteOff 0 3] \<and>
      \<not> seq_playing (seq (heap w' 0)) \<and> \<not> seq_playing (seq (heap w' 1)) \<and>
      channelQueue w' = [[]])"
proof -
  let ?w = "demo_store\<lparr> activePattern := 1, channelQueue := [[1, 0]] \<rparr>"
  have h: "patterns demo_song \<noteq> []"
    by (simp add: demo_song_def)
  from setPosition_start_flushes [OF h, of demo_audio 3 ?w]
  obtain w' where r: "setPosition demo_audio demo_song 0 (Some 3) ?w = Returned w'"
    and s: "sink w' = sink ?w @ map (\<lambda>e. NoteOff e 3) (concat (channelQueue ?w))"
    and p: "\<forall>e \<in> set (concat (channelQueue ?w)). \<not> seq_playing (seq (heap w' e))"
    and l: "length (channelQueue w') = length (channelQueue ?w)"
    and e: "\<forall>list \<in> set (channelQueue w'). list = []"
    by blast
  have "sink w' = [NoteOff 1 3, NoteOff 0 3]"
    using s by (simp add: demo_store_def)
  moreover have "\<not> seq_playing (seq (heap w' 0)) \<and> \<not> seq_playing (seq (heap w' 1))"
    using p by (simp add: demo_store_def)
  moreover have "channelQueue w' = [[]]"
  proof -
    obtain list where "channelQueue w' = [list]"
      using l by (cases "channelQueue w'") (simp_all add: demo_store_def)
    then show ?thesis using e by simp
  qed
  ultimately show ?thesis
    using h r by blast
qed

text \<open>
  Claim C6, as the code has it: \<open>setPosition\<close> clamps its pattern argument from above
  only. On a song that has a pattern and for a pattern index that is not negative, it
  returns with \<open>activePattern\<close> the smaller of the index and \<open>patterns.length - 1\<close>, which
  lies within \<open>[0, patterns.length - 1]\<close>.
\<close>

theorem setPosition_clamps_above:
  assumes "patterns sng \<noteq> []" and "0 \<le> pattern"
  shows "returned (setPosition audio sng pattern currentTime w) \<and>
     activePattern (state_of (setPosition audio sng pattern currentTime w)) =
       min pattern (int (length (patterns sng)) - 1) \<and>
     0 \<le> activePattern (state_of (setPosition audio sng pattern currentTime w)) \<and>
     activePattern (state_of (setPosition audio sng pattern currentTime w))
       \<le> int (length (patterns sng)) - 1"
proof -
  have len: "0 < length (patterns sng)"
    using assms by simp
  show ?thesis
  proof (cases "pattern \<ge> int (length (patterns sng))")
    case True
    have "nat (int (length (patterns sng)) - 1) < length (patterns sng)"
      using len by linarith
    then show ?thesis
      using True len by (simp add: setPosition_def Let_def array_get_def min_def)
  next
    case False
    then have "nat pattern < length (patterns sng)"
      using assms by linarith
    then show ?thesis
      using False assms by (simp add: setPosition_def Let_def array_get_def min_def)
  qed
qed

theorem setPosition_clamps_above_witness:
  "patterns demo_song \<noteq> [] \<and> (0::int) \<le> 5 \<and>
   returned (setPosition demo_audio demo_song 5 None demo_store) \<and>
   activePattern (state_of (setPosition demo_audio demo_song 5 None demo_store)) = 1"
proof -
  have h1: "patterns demo_song \<noteq> []"
    by (simp add: demo_song_def)
  have h2: "(0::int) \<le> 5"
    by simp
  have "min 5 (int (length (patterns demo_song)) - 1) = 1"
    by (simp add: demo_song_def)
  with setPosition_clamps_above [OF h1 h2, of demo_audio None demo_store] show ?thesis
    using h1 by simp
qed

text \<open>A negative pattern index is not clamped: it is stored in \<open>activePattern\<close>, and the
  rebinding of \<open>state.channels\<close> to the missing pattern then throws.\<close>

theorem setPosition_negative_counterexample:
  "\<not> (0 \<le> activePattern (state_of (setPosition demo_audio demo_song (- 1) (Some 0) demo_store)) \<and>
      activePattern (state_of (setPosition demo_audio demo_song (- 1) (Some 0) demo_store))
        \<le> int (length (patterns demo_song)) - 1)"
  by (simp add: setPosition_def Let_def array_get_def demo_song_def demo_store_def)

section \<open>The wrap block of step\<close>

lemma setPosition_in_range:
  assumes "0 \<le> p" and "p < int (length (patterns sng))"
  shows "setPosition audio sng p (Some t) w =
     Returned
       (let w3 = w\<lparr> currentStep := (if activePattern w \<noteq> p then 0 else currentStep w),
                     activePattern := p, nextNoteTime := t, measureStartTime := t,
                     firstMeasureStartTime :=
                       js_sub t (js_mul (real_of_int p) (js_mul (js_div 60 (tempo sng)) (beatAmount w))),
                     st_channels := Some (nat p) \<rparr>
        in if p = 0
           then (stop_all (channelQueue w3) t w3)\<lparr> channelQueue := map (\<lambda>list. []) (channelQueue w3) \<rparr>
           else w3)"
proof -
  have "nat p < length (patterns sng)"
    using assms by linarith
  then show ?thesis
    using assms by (simp add: setPosition_def Let_def array_get_def)
qed

lemma setPosition_activePattern_thrown:
  "activePattern (state_of (setPosition audio sng p ct w)) =
     (if p \<ge> int (length (patterns sng)) then int (length (patterns sng)) - 1 else p)"
  by (simp add: setPosition_def Let_def split: option.splits)

lemma setPosition_keeps [simp]:
  "recording (state_of (setPosition audio sng p ct w)) = recording w"
  "metronome (state_of (setPosition audio sng p ct w)) = metronome w"
  "looping (state_of (setPosition audio sng p ct w)) = looping w"
  "playing (state_of (setPosition audio sng p ct w)) = playing w"
  "stepPrecision (state_of (setPosition audio sng p ct w)) = stepPrecision w"
  by (simp_all add: setPosition_def Let_def split: option.splits)

lemma count_in_due_setPosition [simp]:
  "count_in_due (state_of (setPosition audio sng p ct w)) = count_in_due w"
  by (simp add: count_in_due_def)

lemma step_position_activePattern:
  assumes "\<not> count_in_due w"
  shows "activePattern (state_of (step_position audio sng w)) =
     (if activePattern w \<ge> int (length (patterns sng)) then int (length (patterns sng)) - 1
      else activePattern w)"
proof (cases "setPosition audio sng (activePattern w) (Some (nextNoteTime w)) w")
  case (Returned w1)
  have "\<not> count_in_due w1"
    using count_in_due_setPosition [of audio sng "activePattern w" "Some (nextNoteTime w)" w]
      assms Returned by simp
  moreover have "activePattern w1 =
     (if activePattern w \<ge> int (length (patterns sng)) then int (length (patterns sng)) - 1
      else activePattern w)"
    using setPosition_activePattern_thrown [of audio sng "activePattern w" "Some (nextNoteTime w)" w]
      Returned by simp
  ultimately show ?thesis
    by (auto simp add: step_position_def Returned setActivePattern_def count_in_due_def)
next
  case (Thrown err w1)
  have "activePattern w1 =
     (if activePattern w \<ge> int (length (patterns sng)) then int (length (patterns sng)) - 1
      else activePattern w)"
    using setPosition_activePattern_thrown [of audio sng "activePattern w" "Some (nextNoteTime w)" w]
      Thrown by simp
  then show ?thesis
    by (simp add: step_position_def Thrown)
qed

lemma step_position_currentStep:
  assumes "currentStep w = 0"
  shows "currentStep (state_of (step_position audio sng w)) = 0"
proof -
  have a: "currentStep (state_of (setPosition audio sng (activePattern w) (Some (nextNoteTime w)) w)) = 0"
    using assms by (simp add: setPosition_def Let_def split: option.splits)
  show ?thesis
  proof (cases "setPosition audio sng (activePattern w) (Some (nextNoteTime w)) w")
    case (Returned w1)
    then show ?thesis
      using a by (simp add: step_position_def setActivePattern_def Let_def split: option.splits)
  next
    case (Thrown err w1)
    then show ?thesis
      using a by (simp add: step_position_def)
  qed
qed

lemma step_wrap_commit:
  assumes "currentStep w + 1 = stepPrecision w"
    and "\<not> (activePattern w + 1 > int (length (patterns sng)) - 1 \<and> isRecording audio \<and> \<not> looping w)"
  shows "step audio sng w =
     step_position audio sng
       (w\<lparr> nextNoteTime := js_add (nextNoteTime w) (js_div (js_mul (js_div 60 (tempo sng)) 4) (real_of_int (stepPrecision w))),
            currentStep := 0,
            activePattern := wrap_pattern sng w \<rparr>)"
  using assms
  by (auto simp add: step_def Let_def setCurrentStep_def setActivePattern_def gotoNextPattern_def
      wrap_pattern_def)

lemma step_wrap_stop:
  assumes "currentStep w + 1 = stepPrecision w"
    and "activePattern w + 1 > int (length (patterns sng)) - 1" and "isRecording audio" and "\<not> looping w"
  shows "step audio sng w =
     Returned (setPlaying False
       (w\<lparr> nextNoteTime := js_add (nextNoteTime w) (js_div (js_mul (js_div 60 (tempo sng)) 4) (real_of_int (stepPrecision w))),
            currentStep := 0,
            activePattern := 0 \<rparr>))"
  using assms
  by (simp add: step_def Let_def setCurrentStep_def setActivePattern_def)


lemma step_position_activePattern_zero:
  assumes "activePattern w = 0" and "patterns sng \<noteq> []"
  shows "activePattern (state_of (step_position audio sng w)) = 0"
proof (cases "setPosition audio sng (activePattern w) (Some (nextNoteTime w)) w")
  case (Returned w1)
  have "activePattern w1 = 0"
    using setPosition_activePattern_thrown [of audio sng "activePattern w" "Some (nextNoteTime w)" w]
      Returned assms by simp
  then show ?thesis
    by (simp add: step_position_def Returned setActivePattern_def Let_def split: option.splits)
next
  case (Thrown err w1)
  have "activePattern w1 = 0"
    using setPosition_activePattern_thrown [of audio sng "activePattern w" "Some (nextNoteTime w)" w]
      Thrown assms by simp
  then show ?thesis
    by (simp add: step_position_def Thrown)
qed

text \<open>
  Claim C3. In \<open>step\<close>, when \<open>currentStep + 1\<close> equals \<open>stepPrecision\<close>, \<open>currentStep\<close> is
  reset to 0. If \<open>activePattern + 1\<close> exceeds \<open>patterns.length - 1\<close>, \<open>activePattern\<close> is set to
  0, and if moreover the AudioService is recording and \<open>looping\<close> is false, \<open>playing\<close> is set
  to false and \<open>step\<close> returns with no position committed (\<open>measureStartTime\<close>,
  \<open>firstMeasureStartTime\<close> and \<open>state.channels\<close> are as before). Otherwise the position is
  committed for the pattern chosen by the branch: \<open>activePattern + 1\<close> when that is in range
  and \<open>looping\<close> is false, the unchanged \<open>activePattern\<close> when it is in range and \<open>looping\<close>
  is true. That pattern is the \<open>activePattern\<close> after the call, unless the same call
  completes the count-in of a recording, the later block of \<open>step\<close> that claim C10 is
  about.
\<close>

theorem step_wrap_pattern:
  assumes "currentStep w + 1 = stepPrecision w"
  shows "currentStep (state_of (step audio sng w)) = 0 \<and>
    (activePattern w + 1 > int (length (patterns sng)) - 1 \<and> isRecording audio \<and> \<not> looping w \<longrightarrow>
       step audio sng w =
         Returned (setPlaying False
           (w\<lparr> nextNoteTime := js_add (nextNoteTime w) (js_div (js_mul (js_div 60 (tempo sng)) 4) (real_of_int (stepPrecision w))),
                currentStep := 0, activePattern := 0 \<rparr>)) \<and>
       \<not> playing (state_of (step audio sng w)) \<and>
       activePattern (state_of (step audio sng w)) = 0 \<and>
       measureStartTime (state_of (step audio sng w)) = measureStartTime w \<and>
       firstMeasureStartTime (state_of (step audio sng w)) = firstMeasureStartTime w \<and>
       st_channels (state_of (step audio sng w)) = st_channels w) \<and>
    (\<not> (activePattern w + 1 > int (length (patterns sng)) - 1 \<and> isRecording audio \<and> \<not> looping w) \<longrightarrow>
       step audio sng w =
         step_position audio sng
           (w\<lparr> nextNoteTime := js_add (nextNoteTime w) (js_div (js_mul (js_div 60 (tempo sng)) 4) (real_of_int (stepPrecision w))),
                currentStep := 0, activePattern := wrap_pattern sng w \<rparr>)) \<and>
    (activePattern w + 1 > int (length (patterns sng)) - 1 \<and> patterns sng \<noteq> [] \<longrightarrow>
       activePattern (state_of (step audio sng w)) = 0) \<and>
    (activePattern w + 1 \<le> int (length (patterns sng)) - 1 \<and> \<not> looping w \<and> \<not> count_in_due w \<longrightarrow>
       activePattern (state_of (step audio sng w)) = activePattern w + 1) \<and>
    (activePattern w + 1 \<le> int (length (patterns sng)) - 1 \<and> looping w \<and> \<not> count_in_due w \<longrightarrow>
       activePattern (state_of (step audio sng w)) = activePattern w)"
proof -
  let ?sub = "js_div (js_mul (js_div 60 (tempo sng)) 4) (real_of_int (stepPrecision w))"
  let ?early = "activePattern w + 1 > int (length (patterns sng)) - 1 \<and> isRecording audio \<and> \<not> looping w"
  let ?c = "w\<lparr> nextNoteTime := js_add (nextNoteTime w) ?sub, currentStep := 0,
                activePattern := wrap_pattern sng w \<rparr>"
  have stop: "step audio sng w =
      Returned (setPlaying False (w\<lparr> nextNoteTime := js_add (nextNoteTime w) ?sub,
        currentStep := 0, activePattern := 0 \<rparr>))" if "?early"
    using step_wrap_stop [of w sng audio] assms that by simp
  have commit: "step audio sng w = step_position audio sng ?c" if "\<not> ?early"
    using step_wrap_commit [of w sng audio] assms that by simp
  have due: "count_in_due ?c = count_in_due w"
    by (simp add: count_in_due_def)
  have c1: "currentStep (state_of (step audio sng w)) = 0"
  proof (cases "?early")
    case True
    then show ?thesis by (simp add: stop setPlaying_def Let_def)
  next
    case False
    then show ?thesis by (simp add: commit step_position_currentStep)
  qed
  have c2: "\<not> playing (state_of (step audio sng w)) \<and>
       activePattern (state_of (step audio sng w)) = 0 \<and>
       measureStartTime (state_of (step audio sng w)) = measureStartTime w \<and>
       firstMeasureStartTime (state_of (step audio sng w)) = firstMeasureStartTime w \<and>
       st_channels (state_of (step audio sng w)) = st_channels w" if "?early"
    using that by (simp add: stop setPlaying_def Let_def)
  have c4: "activePattern (state_of (step audio sng w)) = 0"
    if "activePattern w + 1 > int (length (patterns sng)) - 1" and "patterns sng \<noteq> []"
  proof (cases "?early")
    case True
    then show ?thesis using c2 by simp
  next
    case False
    have "activePattern ?c = 0"
      using that by (simp add: wrap_pattern_def)
    then show ?thesis
      using False that step_position_activePattern_zero [of ?c sng audio] by (simp add: commit)
  qed
  have c5: "activePattern (state_of (step audio sng w)) = activePattern w + 1"
    if "activePattern w + 1 \<le> int (length (patterns sng)) - 1" and "\<not> looping w" and "\<not> count_in_due w"
  proof -
    have "\<not> ?early" using that by simp
    moreover have "activePattern ?c = activePattern w + 1"
      using that by (simp add: wrap_pattern_def)
    ultimately show ?thesis
      using that due step_position_activePattern [of ?c audio sng] by (simp add: commit)
  qed
  have c6: "activePattern (state_of (step audio sng w)) = activePattern w"
    if "activePattern w + 1 \<le> int (length (patterns sng)) - 1" and "looping w" and "\<not> count_in_due w"
  proof -
    have "\<not> ?early" using that by simp
    moreover have "activePattern ?c = activePattern w"
      using that by (simp add: wrap_pattern_def)
    ultimately show ?thesis
      using that due step_position_activePattern [of ?c audio sng] by (simp add: commit)
  qed
  show ?thesis
    using c1 c2 stop commit c4 c5 c6 by blast
qed


theorem step_wrap_pattern_witness:
  "currentStep (demo_store\<lparr> currentStep := 3 \<rparr>) + 1 = stepPrecision (demo_store\<lparr> currentStep := 3 \<rparr>) \<and>
   \<not> count_in_due (demo_store\<lparr> currentStep := 3 \<rparr>) \<and>
   patterns demo_song \<noteq> [] \<and>
   currentStep (state_of (step demo_audio demo_song (demo_store\<lparr> currentStep := 3 \<rparr>))) = 0 \<and>
   activePattern (state_of (step demo_audio demo_song (demo_store\<lparr> currentStep := 3 \<rparr>))) = 1 \<and>
   activePattern (state_of (step demo_audio demo_song
      (demo_store\<lparr> currentStep := 3, looping := True \<rparr>))) = 0 \<and>
   activePattern (state_of (step demo_audio demo_song
      (demo_store\<lparr> currentStep := 3, activePattern := 1 \<rparr>))) = 0 \<and>
   \<not> playing (state_of (step (demo_audio\<lparr> isRecording := True \<rparr>) demo_song
      (demo_store\<lparr> currentStep := 3, activePattern := 1 \<rparr>)))"
proof -
  let ?b = "demo_store\<lparr> currentStep := 3 \<rparr>"
  let ?c = "demo_store\<lparr> currentStep := 3, looping := True \<rparr>"
  let ?a = "demo_store\<lparr> currentStep := 3, activePattern := 1 \<rparr>"
  have wb: "currentStep ?b + 1 = stepPrecision ?b"
    and wc: "currentStep ?c + 1 = stepPrecision ?c"
    and wa: "currentStep ?a + 1 = stepPrecision ?a"
    by (simp_all add: demo_store_def)
  have nb: "\<not> count_in_due ?b" and nc: "\<not> count_in_due ?c"
    by (simp_all add: count_in_due_def demo_store_def)
  have ne: "patterns demo_song \<noteq> []"
    by (simp add: demo_song_def)
  have rb: "activePattern ?b + 1 \<le> int (length (patterns demo_song)) - 1 \<and> \<not> looping ?b"
    and rc: "activePattern ?c + 1 \<le> int (length (patterns demo_song)) - 1 \<and> looping ?c"
    and ra: "activePattern ?a + 1 > int (length (patterns demo_song)) - 1 \<and> \<not> looping ?a"
    by (simp_all add: demo_store_def demo_song_def)
  have "currentStep (state_of (step demo_audio demo_song ?b)) = 0"
    and "activePattern (state_of (step demo_audio demo_song ?b)) = activePattern ?b + 1"
    using step_wrap_pattern [OF wb, of demo_audio demo_song] rb nb by blast+
  moreover have "activePattern (state_of (step demo_audio demo_song ?c)) = activePattern ?c"
    using step_wrap_pattern [OF wc, of demo_audio demo_song] rc nc by blast
  moreover have "activePattern (state_of (step demo_audio demo_song ?a)) = 0"
    using step_wrap_pattern [OF wa, of demo_audio demo_song] ra ne by blast
  moreover have "\<not> playing (state_of (step (demo_audio\<lparr> isRecording := True \<rparr>) demo_song ?a))"
  proof -
    have "activePattern ?a + 1 > int (length (patterns demo_song)) - 1 \<and>
          isRecording (demo_audio\<lparr> isRecording := True \<rparr>) \<and> \<not> looping ?a"
      using ra by simp
    then show ?thesis
      using step_wrap_pattern [OF wa, of "demo_audio\<lparr> isRecording := True \<rparr>" demo_song] by blast
  qed
  ultimately show ?thesis
    using wb nb ne by (simp add: demo_store_def)
qed

text \<open>
  Claim C10. When the wrap block of \<open>step\<close> completes the count-in (\<open>recording\<close> and
  \<open>metronome.countIn\<close> are true, \<open>countInComplete\<close> is false), the call does not stop early,
  the pattern reached at the wrap exists and there is an audio context, then after the
  call \<open>activePattern\<close> is 0, while \<open>state.channels\<close> is still bound to the channels of the
  pattern reached at the wrap and \<open>measureStartTime\<close> and \<open>nextNoteTime\<close> hold the time of
  the position commit; the count-in is marked complete, the metronome flag restored and
  \<open>firstMeasureStartTime\<close> set to the current time of the context. In the following pass
  \<open>collect\<close> therefore visits the slots of that pattern's channels and skips every event
  whose \<open>startMeasure\<close> is not 0.
\<close>

theorem step_count_in_completes:
  assumes "currentStep w + 1 = stepPrecision w"
    and "count_in_due w"
    and "\<not> (activePattern w + 1 > int (length (patterns sng)) - 1 \<and> isRecording audio \<and> \<not> looping w)"
    and "0 \<le> wrap_pattern sng w" and "wrap_pattern sng w < int (length (patterns sng))"
    and "audioContext audio = Some now"
  shows "\<exists>w'. step audio sng w = Returned w' \<and>
     activePattern w' = 0 \<and>
     st_channels w' = Some (nat (wrap_pattern sng w)) \<and>
     state_channels sng w' = channels (patterns sng ! nat (wrap_pattern sng w)) \<and>
     measureStartTime w' = js_add (nextNoteTime w) (js_div (js_mul (js_div 60 (tempo sng)) 4) (real_of_int (stepPrecision w))) \<and>
     nextNoteTime w' = js_add (nextNoteTime w) (js_div (js_mul (js_div 60 (tempo sng)) 4) (real_of_int (stepPrecision w))) \<and>
     firstMeasureStartTime w' = now \<and>
     countInComplete (metronome w') \<and>
     enabled (metronome w') = restore (metronome w) \<and>
     (\<forall>e compareTime i. startMeasure (seq (heap w' e)) \<noteq> 0 \<longrightarrow>
        collect_slot sng compareTime i (Ev e) w' = Returned w')"
proof -
  let ?sub = "js_div (js_mul (js_div 60 (tempo sng)) 4) (real_of_int (stepPrecision w))"
  let ?p = "wrap_pattern sng w"
  let ?c = "w\<lparr> nextNoteTime := js_add (nextNoteTime w) ?sub, currentStep := 0, activePattern := ?p \<rparr>"
  have commit: "step audio sng w = step_position audio sng ?c"
    using step_wrap_commit [of w sng audio] assms(1,3) by simp
  have idx: "nat ?p < length (patterns sng)"
    using assms(4,5) by linarith
  obtain w1 where sp: "setPosition audio sng ?p (Some (js_add (nextNoteTime w) ?sub)) ?c = Returned w1"
    and w1: "activePattern w1 = ?p" "st_channels w1 = Some (nat ?p)"
      "measureStartTime w1 = js_add (nextNoteTime w) ?sub" "nextNoteTime w1 = js_add (nextNoteTime w) ?sub"
      "recording w1 = recording w" "metronome w1 = metronome w"
    using setPosition_in_range [OF assms(4,5), of audio "js_add (nextNoteTime w) ?sub" ?c]
    by (simp add: Let_def)
  let ?w' = "w1\<lparr> metronome := (metronome w1)\<lparr> enabled := restore (metronome w1),
                  countInComplete := True \<rparr>, firstMeasureStartTime := now, activePattern := 0 \<rparr>"
  have "step audio sng w = Returned ?w'"
    using assms(2,6) w1 sp
    by (simp add: commit step_position_def count_in_due_def setActivePattern_def Let_def)
  moreover have "state_channels sng ?w' = channels (patterns sng ! nat ?p)"
    using idx w1 assms(4) by (simp add: state_channels_def array_get_def)
  moreover have "\<forall>e compareTime i. startMeasure (seq (heap ?w' e)) \<noteq> 0 \<longrightarrow>
        collect_slot sng compareTime i (Ev e) ?w' = Returned ?w'"
    by (simp add: collect_slot_def Let_def)
  ultimately show ?thesis
    using w1 by simp
qed

theorem step_count_in_completes_witness:
  "currentStep count_in_store + 1 = stepPrecision count_in_store \<and>
   count_in_due count_in_store \<and>
   wrap_pattern demo_song count_in_store = 1 \<and>
   audioContext demo_audio = Some (3/8) \<and>
   (\<exists>w'. step demo_audio demo_song count_in_store = Returned w' \<and>
      activePattern w' = 0 \<and> st_channels w' = Some 1 \<and>
      state_channels demo_song w' = [[Ev 2, Empty, Empty, Empty]] \<and>
      measureStartTime w' = 1/2 \<and> nextNoteTime w' = 1/2 \<and> firstMeasureStartTime w' = 3/8 \<and>
      countInComplete (metronome w') \<and> \<not> enabled (metronome w'))"
proof -
  let ?w = "count_in_store"
  have h1: "currentStep ?w + 1 = stepPrecision ?w"
    by (simp add: count_in_store_def demo_store_def)
  have h2: "count_in_due ?w"
    by (simp add: count_in_due_def count_in_store_def)
  have h3: "\<not> (activePattern ?w + 1 > int (length (patterns demo_song)) - 1 \<and>
              isRecording demo_audio \<and> \<not> looping ?w)"
    by (simp add: demo_audio_def)
  have p: "wrap_pattern demo_song ?w = 1"
    by (simp add: wrap_pattern_def demo_song_def count_in_store_def demo_store_def)
  have h4: "0 \<le> wrap_pattern demo_song ?w"
    using p by simp
  have h5: "wrap_pattern demo_song ?w < int (length (patterns demo_song))"
    using p by (simp add: demo_song_def)
  have h6: "audioContext demo_audio = Some (3/8)"
    by (simp add: demo_audio_def)
  from step_count_in_completes [OF h1 h2 h3 h4 h5 h6]
  obtain w' where "step demo_audio demo_song ?w = Returned w'"
    and "activePattern w' = 0"
    and "st_channels w' = Some (nat (wrap_pattern demo_song ?w))"
    and "state_channels demo_song w' = channels (patterns demo_song ! nat (wrap_pattern demo_song ?w))"
    and "measureStartTime w' =
           js_add (nextNoteTime ?w) (js_div (js_mul (js_div 60 (tempo demo_song)) 4) (real_of_int (stepPrecision ?w)))"
    and "nextNoteTime w' =
           js_add (nextNoteTime ?w) (js_div (js_mul (js_div 60 (tempo demo_song)) 4) (real_of_int (stepPrecision ?w)))"
    and "firstMeasureStartTime w' = 3/8"
    and "countInComplete (metronome w')"
    and "enabled (metronome w') = restore (metronome ?w)"
    by blast
  then have "step demo_audio demo_song ?w = Returned w' \<and>
      activePattern w' = 0 \<and> st_channels w' = Some 1 \<and>
      state_channels demo_song w' = [[Ev 2, Empty, Empty, Empty]] \<and>
      measureStartTime w' = 1/2 \<and> nextNoteTime w' = 1/2 \<and> firstMeasureStartTime w' = 3/8 \<and>
      countInComplete (metronome w') \<and> \<not> enabled (metronome w')"
    using p demo_step_length by (simp add: demo_song_def count_in_store_def demo_store_def)
  then show ?thesis
    using h1 h2 p h6 by blast
qed

section \<open>setPatternSteps\<close>

lemma is_index_real [simp]: "is_index (real m)"
  by (simp add: is_index_def)

lemma read_slot_real: "read_slot ch (real m) = (if m < length ch then ch ! m else Undefined)"
  by (simp add: read_slot_def)

lemma write_slot_real: "m < length t \<Longrightarrow> write_slot t (real m) v = t[m := v]"
  by (simp add: write_slot_def)

lemma reduce_loop_length:
  assumes "length t = n"
  shows "length (reduce_loop i j n inc ch t) = n"
  using assms
proof (induction "n - i" arbitrary: i j t)
  case 0
  then show ?case by (simp add: reduce_loop.simps)
next
  case (Suc d)
  then have lt: "i < n" by simp
  have "length (write_slot t (real i) (read_slot ch j)) = n"
    using lt Suc.prems by (simp add: write_slot_real)
  moreover have "d = n - (i + 1)"
    using Suc.hyps(2) by simp
  ultimately have "length (reduce_loop (i + 1) (j + inc) n inc ch
      (write_slot t (real i) (read_slot ch j))) = n"
    using Suc.hyps(1) by blast
  then show ?case
    using lt by (subst reduce_loop.simps) simp
qed

lemma reduce_loop_nat:
  assumes "length t = n" and "i \<le> n"
  shows "reduce_loop i (real (i * k)) n (real k) ch t =
     take i t @ map (\<lambda>x. read_slot ch (real (x * k))) [i..<n]"
  using assms
proof (induction "n - i" arbitrary: i t)
  case 0
  then show ?case by (simp add: reduce_loop.simps)
next
  case (Suc d)
  then have lt: "i < n" by simp
  let ?v = "read_slot ch (real (i * k))"
  let ?t1 = "write_slot t (real i) ?v"
  let ?f = "\<lambda>x. read_slot ch (real (x * k))"
  have t1: "?t1 = t[i := ?v]"
    using lt Suc.prems write_slot_real [of i t ?v] by simp
  have j: "real (i * k) + real k = real ((i + 1) * k)"
    by (simp add: algebra_simps)
  have "reduce_loop i (real (i * k)) n (real k) ch t =
        reduce_loop (i + 1) (real (i * k) + real k) n (real k) ch ?t1"
    using lt by (subst reduce_loop.simps) (simp only: if_True)
  also have "\<dots> = reduce_loop (i + 1) (real ((i + 1) * k)) n (real k) ch ?t1"
    by (simp only: j)
  also have "\<dots> = take (i + 1) ?t1 @ map ?f [i + 1..<n]"
    using Suc.hyps(2) lt Suc.prems t1 by (intro Suc.hyps(1)) simp_all
  also have "take (i + 1) ?t1 = take i t @ [?v]"
    unfolding t1 using lt Suc.prems by (simp add: take_Suc_conv_app_nth)
  also have "(take i t @ [?v]) @ map ?f [i + 1..<n] = take i t @ map ?f [i..<n]"
    using lt by (simp add: upt_conv_Cons)
  finally show ?case .
qed

lemma expand_loop_length:
  assumes "length t = N" and "M \<le> N"
  shows "length (expand_loop i (real i * (real N / real M)) M (real N / real M) ch t) = N"
  using assms
proof (induction "M - i" arbitrary: i t)
  case 0
  then show ?case by (simp add: expand_loop.simps)
next
  case (Suc d)
  then have lt: "i < M" by simp
  let ?j = "real i * (real N / real M)"
  have "?j < real N"
  proof -
    have "real i * real N < real M * real N"
      using lt Suc.prems by (intro mult_strict_right_mono) simp_all
    then show ?thesis
      using lt by (simp add: field_simps)
  qed
  moreover have "0 \<le> ?j" by simp
  ultimately have "nat \<lfloor>?j\<rfloor> < N"
    by linarith
  then have len: "length (write_slot t ?j (read_slot ch (real i))) = N"
    using Suc.prems by (simp add: write_slot_def)
  have j: "?j + real N / real M = real (i + 1) * (real N / real M)"
    using lt by (simp add: field_simps)
  have "length (expand_loop (i + 1) (real (i + 1) * (real N / real M)) M (real N / real M) ch
      (write_slot t ?j (read_slot ch (real i)))) = N"
    using Suc.hyps(2) len Suc.prems by (intro Suc.hyps(1)) simp_all
  moreover have "expand_loop i ?j M (real N / real M) ch t =
      expand_loop (i + 1) (?j + real N / real M) M (real N / real M) ch
        (write_slot t ?j (read_slot ch (real i)))"
    using lt by (subst expand_loop.simps) (simp only: if_True)
  ultimately show ?case
    by (simp only: j)
qed

lemma expand_loop_nat:
  assumes "length t = N" and "n * k \<le> N" and "i \<le> n" and "0 < k"
  shows "length (expand_loop i (real (i * k)) n (real k) ch t) = N \<and>
     (\<forall>pos < N. expand_loop i (real (i * k)) n (real k) ch t ! pos =
        (if k dvd pos \<and> i \<le> pos div k \<and> pos div k < n
         then read_slot ch (real (pos div k)) else t ! pos))"
  using assms
proof (induction "n - i" arbitrary: i t)
  case 0
  then show ?case by (auto simp add: expand_loop.simps)
next
  case (Suc d)
  then have lt: "i < n" by simp
  have "(i + 1) * k \<le> n * k"
    using lt by (intro mult_le_mono1) simp
  then have ik: "i * k < N"
    using Suc.prems by simp
  let ?t1 = "write_slot t (real (i * k)) (read_slot ch (real i))"
  have t1: "?t1 = t[i * k := read_slot ch (real i)]"
    using ik Suc.prems write_slot_real [of "i * k" t "read_slot ch (real i)"] by simp
  have j: "real (i * k) + real k = real ((i + 1) * k)"
    by (simp add: algebra_simps)
  have ih: "length (expand_loop (i + 1) (real ((i + 1) * k)) n (real k) ch ?t1) = N \<and>
     (\<forall>pos < N. expand_loop (i + 1) (real ((i + 1) * k)) n (real k) ch ?t1 ! pos =
        (if k dvd pos \<and> i + 1 \<le> pos div k \<and> pos div k < n
         then read_slot ch (real (pos div k)) else ?t1 ! pos))"
    using Suc.hyps(2) lt Suc.prems t1 by (intro Suc.hyps(1)) simp_all
  have "expand_loop i (real (i * k)) n (real k) ch t =
     expand_loop (i + 1) (real (i * k) + real k) n (real k) ch ?t1"
    using lt by (subst expand_loop.simps) (simp only: if_True)
  then have unf: "expand_loop i (real (i * k)) n (real k) ch t =
     expand_loop (i + 1) (real ((i + 1) * k)) n (real k) ch ?t1"
    by (simp only: j)
  have "expand_loop (i + 1) (real ((i + 1) * k)) n (real k) ch ?t1 ! pos =
        (if k dvd pos \<and> i \<le> pos div k \<and> pos div k < n
         then read_slot ch (real (pos div k)) else t ! pos)" if "pos < N" for pos
  proof (cases "pos = i * k")
    case True
    then have "pos div k = i" "k dvd pos"
      using Suc.prems(4) by simp_all
    then show ?thesis
      using ih that True lt Suc.prems t1 by simp
  next
    case False
    have "\<not> (k dvd pos \<and> pos div k = i)"
      using False by auto
    then have "(k dvd pos \<and> i + 1 \<le> pos div k \<and> pos div k < n) =
               (k dvd pos \<and> i \<le> pos div k \<and> pos div k < n)"
      by auto
    then show ?thesis
      using ih that False t1 by simp
  qed
  then show ?case
    using ih unf by simp
qed

lemma transform_channel_length: "length (transform_channel M N ch) = N"
proof (cases "N < M")
  case True
  then show ?thesis
    by (simp add: transform_channel_def reduce_loop_length)
next
  case False
  then have "M \<le> N" by simp
  then have "length (expand_loop 0 (real 0 * (real N / real M)) M (real N / real M) ch
      (replicate N Empty)) = N"
    by (intro expand_loop_length) simp_all
  then show ?thesis
    using False by (simp add: transform_channel_def)
qed

lemma transform_channel_reduce:
  assumes "N < M" and "N dvd M" and "length ch = M"
  shows "transform_channel M N ch = map (\<lambda>i. ch ! (i * (M div N))) [0..<N]"
proof -
  define k where "k = M div N"
  have N: "0 < N"
    using assms by (cases "N = 0") simp_all
  have M: "M = k * N"
    using assms(2) by (simp add: k_def)
  have inc: "real M / real N = real k"
    using N by (simp add: M)
  have "reduce_loop 0 (real (0 * k)) N (real k) ch (replicate N Empty) =
     take 0 (replicate N Empty) @ map (\<lambda>x. read_slot ch (real (x * k))) [0..<N]"
    by (intro reduce_loop_nat) simp_all
  then have "transform_channel M N ch = map (\<lambda>x. read_slot ch (real (x * k))) [0..<N]"
    using assms(1) inc by (simp add: transform_channel_def)
  moreover have "read_slot ch (real (x * k)) = ch ! (x * k)" if "x < N" for x
  proof -
    have "x * k < N * k"
      using that N assms(1) M by (intro mult_strict_right_mono) (auto intro: Nat.gr0I)
    then show ?thesis
      using M assms(3) read_slot_real [of ch "x * k"] by (simp add: mult.commute)
  qed
  ultimately show ?thesis
    by (simp add: k_def)
qed

lemma transform_channel_expand:
  assumes "0 < M" and "M dvd N" and "M \<le> N" and "length ch = M" and "pos < N"
  shows "transform_channel M N ch ! pos =
     (if (N div M) dvd pos then ch ! (pos div (N div M)) else Empty)"
proof -
  define k where "k = N div M"
  have N: "N = M * k"
    using assms(2) by (simp add: k_def)
  have k: "0 < k"
    using assms(1,3) N by (cases "k = 0") simp_all
  have inc: "real N / real M = real k"
    using assms(1) by (simp add: N)
  have "expand_loop 0 (real (0 * k)) M (real k) ch (replicate N Empty) ! pos =
        (if k dvd pos \<and> 0 \<le> pos div k \<and> pos div k < M
         then read_slot ch (real (pos div k)) else replicate N Empty ! pos)"
    using expand_loop_nat [of "replicate N Empty" N M k 0 ch] k assms(5) N by simp
  moreover have "pos div k < M"
    using assms(5) N k by (simp add: less_mult_imp_div_less mult.commute)
  ultimately have "transform_channel M N ch ! pos =
        (if k dvd pos then read_slot ch (real (pos div k)) else Empty)"
    using assms(3,5) inc by (simp add: transform_channel_def)
  then show ?thesis
    using \<open>pos div k < M\<close> assms(4) read_slot_real [of ch "pos div k"] by (simp add: k_def)
qed

lemma transform_channel_same:
  assumes "length ch = M"
  shows "transform_channel M M ch = ch"
proof (cases "M = 0")
  case True
  then show ?thesis
    using assms transform_channel_length [of M M ch] by simp
next
  case False
  show ?thesis
  proof (rule nth_equalityI)
    show "length (transform_channel M M ch) = length ch"
      using assms by (simp add: transform_channel_length)
  next
    fix pos assume "pos < length (transform_channel M M ch)"
    then have "pos < M"
      by (simp add: transform_channel_length)
    then show "transform_channel M M ch ! pos = ch ! pos"
      using transform_channel_expand [of M M ch pos] False assms by simp
  qed
qed

text \<open>
  Claim C4, as the code has it: for a pattern of \<open>M\<close> steps whose channels have \<open>M\<close> slots
  and a new step count \<open>N < M\<close>, \<open>setPatternSteps\<close> gives every channel the length \<open>N\<close>; when
  \<open>M\<close> is an integer multiple of \<open>N\<close>, \<open>new[i] = old[i * k]\<close> for every \<open>i\<close> in \<open>[0, N)\<close>, with
  \<open>k = M / N\<close>.
\<close>

theorem setPatternSteps_reduce:
  assumes "N < steps P" and "\<forall>ch \<in> set (channels P). length ch = steps P"
  shows "length (channels (setPatternSteps P N)) = length (channels P) \<and>
     (\<forall>c < length (channels P). length (channels (setPatternSteps P N) ! c) = N) \<and>
     (N dvd steps P \<longrightarrow>
        (\<forall>c < length (channels P). \<forall>i < N.
           channels (setPatternSteps P N) ! c ! i = channels P ! c ! (i * (steps P div N))))"
proof -
  have ch: "channels (setPatternSteps P N) = map (transform_channel (steps P) N) (channels P)"
    by (simp add: setPatternSteps_def Let_def)
  have "channels (setPatternSteps P N) ! c ! i = channels P ! c ! (i * (steps P div N))"
    if "N dvd steps P" and "c < length (channels P)" and "i < N" for c i
  proof -
    have "length (channels P ! c) = steps P"
      using assms(2) that(2) by simp
    then have "transform_channel (steps P) N (channels P ! c) =
        map (\<lambda>i. channels P ! c ! (i * (steps P div N))) [0..<N]"
      using assms(1) that(1) by (intro transform_channel_reduce)
    then show ?thesis
      using that(2,3) by (simp add: ch)
  qed
  then show ?thesis
    by (simp add: ch transform_channel_length)
qed

theorem setPatternSteps_reduce_witness:
  "(2::nat) < steps four_steps \<and> channels four_steps = [[Ev 0, Ev 1, Empty, Ev 2]] \<and>
   2 dvd steps four_steps \<and>
   length (channels (setPatternSteps four_steps 2) ! 0) = 2 \<and>
   channels (setPatternSteps four_steps 2) ! 0 ! 0 = Ev 0 \<and>
   channels (setPatternSteps four_steps 2) ! 0 ! 1 = Empty"
proof -
  have h1: "2 < steps four_steps"
    by (simp add: four_steps_def)
  have h2: "\<forall>ch \<in> set (channels four_steps). length ch = steps four_steps"
    by (simp add: four_steps_def)
  have h3: "2 dvd steps four_steps"
    by (simp add: four_steps_def)
  have c: "0 < length (channels four_steps)"
    by (simp add: four_steps_def)
  from setPatternSteps_reduce [OF h1 h2] h3 c
  have "length (channels (setPatternSteps four_steps 2) ! 0) = 2"
    and "\<forall>i < 2. channels (setPatternSteps four_steps 2) ! 0 ! i
           = channels four_steps ! 0 ! (i * (steps four_steps div 2))"
    by blast+
  then have "length (channels (setPatternSteps four_steps 2) ! 0) = 2 \<and>
   channels (setPatternSteps four_steps 2) ! 0 ! 0 = Ev 0 \<and>
   channels (setPatternSteps four_steps 2) ! 0 ! 1 = Empty"
    by (simp add: four_steps_def)
  moreover have "channels four_steps = [[Ev 0, Ev 1, Empty, Ev 2]]"
    by (simp add: four_steps_def)
  ultimately show ?thesis
    using h1 h3 by blast
qed

text \<open>With three steps reduced to two the increment is 1.5: slot 1 is read at index 1.5,
  which is \<open>undefined\<close>, and not at the truncated index 1.\<close>

theorem setPatternSteps_reduce_counterexample:
  "channels (setPatternSteps three_steps 2) ! 0 ! 1 = Undefined \<and>
   channels (setPatternSteps three_steps 2) ! 0 ! 1
     \<noteq> channels three_steps ! 0 ! (1 * (steps three_steps div 2))"
  by (simp add: setPatternSteps_def transform_channel_def three_steps_def reduce_loop.simps
      write_slot_def read_slot_def is_index_def)

text \<open>
  Claim C5, as the code has it: for a pattern of \<open>M\<close> steps whose channels have \<open>M\<close> slots
  and a new step count \<open>N \<ge> M\<close>, \<open>setPatternSteps\<close> gives every channel the length \<open>N\<close>; when
  \<open>N\<close> is an integer multiple of \<open>M\<close>, \<open>new[i * k] = old[i]\<close> for every \<open>i\<close> in \<open>[0, M)\<close>, with
  \<open>k = N / M\<close>, and every other slot is empty; when \<open>N = M\<close> the channels are unchanged.
\<close>

theorem setPatternSteps_expand:
  assumes "steps P \<le> N" and "\<forall>ch \<in> set (channels P). length ch = steps P"
  shows "length (channels (setPatternSteps P N)) = length (channels P) \<and>
     (\<forall>c < length (channels P). length (channels (setPatternSteps P N) ! c) = N) \<and>
     (0 < steps P \<and> steps P dvd N \<longrightarrow>
        (\<forall>c < length (channels P).
           (\<forall>i < steps P.
              channels (setPatternSteps P N) ! c ! (i * (N div steps P)) = channels P ! c ! i) \<and>
           (\<forall>pos < N. \<not> (N div steps P) dvd pos \<longrightarrow>
              channels (setPatternSteps P N) ! c ! pos = Empty))) \<and>
     (N = steps P \<longrightarrow> channels (setPatternSteps P N) = channels P)"
proof -
  have ch: "channels (setPatternSteps P N) = map (transform_channel (steps P) N) (channels P)"
    by (simp add: setPatternSteps_def Let_def)
  have content: "(\<forall>i < steps P.
              channels (setPatternSteps P N) ! c ! (i * (N div steps P)) = channels P ! c ! i) \<and>
           (\<forall>pos < N. \<not> (N div steps P) dvd pos \<longrightarrow>
              channels (setPatternSteps P N) ! c ! pos = Empty)"
    if pos: "0 < steps P" and dvd: "steps P dvd N" and c: "c < length (channels P)" for c
  proof -
    define k where "k = N div steps P"
    have N: "N = steps P * k"
      using dvd by (simp add: k_def)
    have k: "0 < k"
      using pos assms(1) N by (cases "k = 0") simp_all
    have len: "length (channels P ! c) = steps P"
      using assms(2) c by simp
    have nth: "transform_channel (steps P) N (channels P ! c) ! x =
        (if k dvd x then channels P ! c ! (x div k) else Empty)" if "x < N" for x
      using transform_channel_expand [OF pos dvd assms(1) len that] by (simp add: k_def)
    have "transform_channel (steps P) N (channels P ! c) ! (i * k) = channels P ! c ! i"
      if "i < steps P" for i
    proof -
      have "i * k < steps P * k"
        using that k by simp
      then show ?thesis
        using nth [of "i * k"] N k by simp
    qed
    then show ?thesis
      using nth c by (simp add: ch k_def)
  qed
  have same: "channels (setPatternSteps P N) = channels P" if "N = steps P"
  proof -
    have "map (transform_channel (steps P) (steps P)) (channels P) = map (\<lambda>ch. ch) (channels P)"
      using assms(2) by (intro map_cong) (simp_all add: transform_channel_same)
    then show ?thesis
      using that ch by simp
  qed
  show ?thesis
    using content same by (simp add: ch transform_channel_length)
qed

theorem setPatternSteps_expand_witness:
  "steps two_steps \<le> 4 \<and> channels two_steps = [[Ev 0, Ev 1]] \<and>
   0 < steps two_steps \<and> steps two_steps dvd 4 \<and>
   length (channels (setPatternSteps two_steps 4) ! 0) = 4 \<and>
   channels (setPatternSteps two_steps 4) ! 0 ! 0 = Ev 0 \<and>
   channels (setPatternSteps two_steps 4) ! 0 ! 1 = Empty \<and>
   channels (setPatternSteps two_steps 4) ! 0 ! 2 = Ev 1 \<and>
   channels (setPatternSteps two_steps 4) ! 0 ! 3 = Empty \<and>
   channels (setPatternSteps two_steps 2) = channels two_steps"
proof -
  have h1: "steps two_steps \<le> 4" and h1': "steps two_steps \<le> 2"
    by (simp_all add: two_steps_def)
  have h2: "\<forall>ch \<in> set (channels two_steps). length ch = steps two_steps"
    by (simp add: two_steps_def)
  have h3: "0 < steps two_steps \<and> steps two_steps dvd 4"
    by (simp add: two_steps_def)
  have c: "0 < length (channels two_steps)"
    by (simp add: two_steps_def)
  have k: "4 div steps two_steps = 2"
    by (simp add: two_steps_def)
  from setPatternSteps_expand [OF h1 h2] h3 c
  have l: "length (channels (setPatternSteps two_steps 4) ! 0) = 4"
    and a: "\<forall>i < steps two_steps.
              channels (setPatternSteps two_steps 4) ! 0 ! (i * (4 div steps two_steps))
                = channels two_steps ! 0 ! i"
    and b: "\<forall>pos < 4. \<not> (4 div steps two_steps) dvd pos \<longrightarrow>
              channels (setPatternSteps two_steps 4) ! 0 ! pos = Empty"
    by blast+
  have s2: "0 < steps two_steps" "1 < steps two_steps"
    by (simp_all add: two_steps_def)
  have "channels (setPatternSteps two_steps 4) ! 0 ! (0 * 2) = channels two_steps ! 0 ! 0"
    and "channels (setPatternSteps two_steps 4) ! 0 ! (1 * 2) = channels two_steps ! 0 ! 1"
    using a [rule_format, OF s2(1)] a [rule_format, OF s2(2)] k by simp_all
  then have "channels (setPatternSteps two_steps 4) ! 0 ! 0 = Ev 0"
    and "channels (setPatternSteps two_steps 4) ! 0 ! 2 = Ev 1"
    by (simp_all add: two_steps_def)
  moreover have "channels (setPatternSteps two_steps 4) ! 0 ! 1 = Empty"
    and "channels (setPatternSteps two_steps 4) ! 0 ! 3 = Empty"
    using b k by simp_all
  moreover have "channels (setPatternSteps two_steps 2) = channels two_steps"
    using setPatternSteps_expand [OF h1' h2] by (simp add: two_steps_def)
  moreover have "channels two_steps = [[Ev 0, Ev 1]]"
    by (simp add: two_steps_def)
  ultimately show ?thesis
    using h1 h3 l by blast
qed

text \<open>With two steps expanded to three the increment is 1.5: the second event is written
  to the property 1.5 of the array and is in none of its slots.\<close>

theorem setPatternSteps_expand_counterexample:
  "channels (setPatternSteps two_steps 3) ! 0 = [Ev 0, Empty, Empty] \<and>
   channels (setPatternSteps two_steps 3) ! 0 ! (1 * (3 div steps two_steps))
     \<noteq> channels two_steps ! 0 ! 1"
proof -
  have rep: "replicate 3 Empty = [Empty, Empty, Empty]"
    by (simp add: eval_nat_numeral)
  have r: "channels (setPatternSteps two_steps 3) ! 0 = [Ev 0, Empty, Empty]"
    by (simp add: setPatternSteps_def transform_channel_def two_steps_def expand_loop.simps
        write_slot_def read_slot_def is_index_def rep)
  have "(3::nat) div steps two_steps = 1"
    by (simp add: two_steps_def)
  then show ?thesis
    using r by (simp add: two_steps_def)
qed

section \<open>The scan of collect and the playing flags\<close>

lemma set_channel_events: "e \<in> set (channel_events ch) \<longleftrightarrow> Ev e \<in> set ch"
  by (induction ch) (auto simp add: channel_events_def split: slot.splits)

lemma same_event_refl [simp]: "same_event ev ev"
  by (simp add: same_event_def)

lemma same_event_trans: "same_event a b \<Longrightarrow> same_event b c \<Longrightarrow> same_event a c"
  by (simp add: same_event_def)

lemma same_event_range:
  "same_event ev ev' \<Longrightarrow> in_trigger_range t (seq ev') = in_trigger_range t (seq ev)"
  by (simp add: same_event_def in_trigger_range_def)

lemma same_event_overlapping:
  "same_event a a' \<Longrightarrow> same_event b b' \<Longrightarrow> overlapping (seq a') (seq b') = overlapping (seq a) (seq b)"
  by (simp add: same_event_def overlapping_def)

lemma in_range_overlapping:
  "in_trigger_range t sq \<Longrightarrow> in_trigger_range t sq' \<Longrightarrow> overlapping sq sq'"
  by (auto simp add: in_trigger_range_def overlapping_def)

lemma scanned_refl: "scanned a t {} h h"
  by (simp add: scanned_def)

lemma scanned_trans:
  assumes "scanned a t E h h'" and "scanned a t E' h' h''"
  shows "scanned a t (E \<union> E') h h''"
  unfolding scanned_def
proof (intro allI conjI)
  fix e
  have 1: "same_event (h e) (h' e)" and 2: "same_event (h' e) (h'' e)"
    using assms by (simp_all add: scanned_def)
  then show "same_event (h e) (h'' e)"
    by (rule same_event_trans)
  have r: "ev_recording (h' e) = ev_recording (h e)"
    and m: "startMeasure (seq (h' e)) = startMeasure (seq (h e))"
    using 1 by (simp_all add: same_event_def)
  have i: "in_trigger_range t (seq (h' e)) = in_trigger_range t (seq (h e))"
    using 1 by (rule same_event_range)
  have p1: "seq_playing (seq (h' e)) =
            (if e \<in> E \<and> \<not> ev_recording (h e) \<and> startMeasure (seq (h e)) = a
             then in_trigger_range t (seq (h e)) else seq_playing (seq (h e)))"
    using assms(1) by (simp add: scanned_def)
  have p2: "seq_playing (seq (h'' e)) =
            (if e \<in> E' \<and> \<not> ev_recording (h' e) \<and> startMeasure (seq (h' e)) = a
             then in_trigger_range t (seq (h' e)) else seq_playing (seq (h' e)))"
    using assms(2) by (simp add: scanned_def)
  show "seq_playing (seq (h'' e)) =
            (if e \<in> E \<union> E' \<and> \<not> ev_recording (h e) \<and> startMeasure (seq (h e)) = a
             then in_trigger_range t (seq (h e)) else seq_playing (seq (h e)))"
    using p1 p2 r m i by auto
qed

lemma enqueueEvent_effect:
  assumes "i < length (channelQueue w)"
  shows "\<exists>w'. enqueueEvent sng e i w = Returned w' \<and>
     (\<forall>e'. e' \<noteq> e \<longrightarrow> heap w' e' = heap w e') \<and>
     same_event (heap w e) (heap w' e) \<and> seq_playing (seq (heap w' e)) \<and>
     activePattern w' = activePattern w \<and>
     length (channelQueue w') = length (channelQueue w)"
  using assms
  by (simp add: enqueueEvent_def Let_def set_seq_playing_def set_seq_mpLength_def dequeueEvent_def
      same_event_def)

lemma collect_slot_scanned:
  assumes "i < length (channelQueue w)"
  shows "\<exists>w'. collect_slot sng t i sl w = Returned w' \<and>
     scanned (activePattern w) t (set (channel_events [sl])) (heap w) (heap w') \<and>
     activePattern w' = activePattern w \<and>
     length (channelQueue w') = length (channelQueue w)"
proof (cases sl)
  case Undefined
  then show ?thesis by (simp add: collect_slot_def channel_events_def scanned_refl)
next
  case Empty
  then show ?thesis by (simp add: collect_slot_def channel_events_def scanned_refl)
next
  case (Ev e)
  have ce: "set (channel_events [sl]) = {e}"
    using Ev by (simp add: channel_events_def)
  show ?thesis
  proof (cases "ev_recording (heap w e) \<or> startMeasure (seq (heap w e)) \<noteq> activePattern w")
    case True
    then have "collect_slot sng t i sl w = Returned w"
      using Ev by (simp add: collect_slot_def)
    moreover have "scanned (activePattern w) t {e} (heap w) (heap w)"
      using True by (auto simp add: scanned_def)
    ultimately show ?thesis
      using ce by simp
  next
    case False
    note elig = this
    show ?thesis
    proof (cases "in_trigger_range t (seq (heap w e))")
      case True
      show ?thesis
      proof (cases "seq_playing (seq (heap w e))")
        case True
        then have "collect_slot sng t i sl w = Returned w"
          using Ev elig \<open>in_trigger_range t (seq (heap w e))\<close> by (simp add: collect_slot_def)
        moreover have "scanned (activePattern w) t {e} (heap w) (heap w)"
          using True \<open>in_trigger_range t (seq (heap w e))\<close> by (auto simp add: scanned_def)
        ultimately show ?thesis
          using ce by simp
      next
        case False
        obtain w' where en: "enqueueEvent sng e i w = Returned w'"
          and h: "\<forall>e'. e' \<noteq> e \<longrightarrow> heap w' e' = heap w e'"
            "same_event (heap w e) (heap w' e)" "seq_playing (seq (heap w' e))"
          and fr: "activePattern w' = activePattern w" "length (channelQueue w') = length (channelQueue w)"
          using enqueueEvent_effect [OF assms] by blast
        have "collect_slot sng t i sl w = Returned w'"
          using Ev elig True False en by (simp add: collect_slot_def)
        moreover have "scanned (activePattern w) t {e} (heap w) (heap w')"
          using True elig h by (auto simp add: scanned_def)
        ultimately show ?thesis
          using ce fr by simp
      qed
    next
      case False
      then have "collect_slot sng t i sl w = Returned (set_seq_playing e False w)"
        using Ev elig by (simp add: collect_slot_def)
      moreover have "scanned (activePattern w) t {e} (heap w) (heap (set_seq_playing e False w))"
        using False elig by (auto simp add: scanned_def set_seq_playing_def same_event_def)
      ultimately show ?thesis
        using ce by (simp add: set_seq_playing_def)
    qed
  qed
qed

lemma collect_channel_scanned:
  assumes "i < length (channelQueue w)"
  shows "\<exists>w'. collect_channel sng t i sls w = Returned w' \<and>
     scanned (activePattern w) t (set (channel_events sls)) (heap w) (heap w') \<and>
     activePattern w' = activePattern w \<and>
     length (channelQueue w') = length (channelQueue w)"
  using assms
proof (induction sls arbitrary: w)
  case Nil
  then show ?case by (simp add: channel_events_def scanned_refl)
next
  case (Cons sl rest)
  obtain w1 where s1: "collect_slot sng t i sl w = Returned w1"
    and sc1: "scanned (activePattern w) t (set (channel_events [sl])) (heap w) (heap w1)"
    and fr1: "activePattern w1 = activePattern w" "length (channelQueue w1) = length (channelQueue w)"
    using collect_slot_scanned [OF Cons.prems] by blast
  have "i < length (channelQueue w1)"
    using fr1 Cons.prems by simp
  then obtain w2 where s2: "collect_channel sng t i rest w1 = Returned w2"
    and sc2: "scanned (activePattern w1) t (set (channel_events rest)) (heap w1) (heap w2)"
    and fr2: "activePattern w2 = activePattern w1" "length (channelQueue w2) = length (channelQueue w1)"
    using Cons.IH by blast
  have "set (channel_events (sl # rest)) = set (channel_events [sl]) \<union> set (channel_events rest)"
    by (simp add: channel_events_def)
  then have "scanned (activePattern w) t (set (channel_events (sl # rest))) (heap w) (heap w2)"
    using scanned_trans [OF sc1] sc2 fr1 by simp
  then show ?case
    using s1 s2 fr1 fr2 by simp
qed

lemma collect_channels_scanned:
  assumes "n \<le> length chs" and "n \<le> length (channelQueue w)"
  shows "\<exists>w'. collect_channels sng t chs n w = Returned w' \<and>
     scanned (activePattern w) t (\<Union>ch \<in> set (take n chs). set (channel_events ch)) (heap w) (heap w') \<and>
     activePattern w' = activePattern w \<and>
     length (channelQueue w') = length (channelQueue w)"
  using assms
proof (induction n arbitrary: w)
  case 0
  then show ?case by (simp add: scanned_refl)
next
  case (Suc n)
  have "n < length (channelQueue w)"
    using Suc.prems by simp
  then obtain w1 where s1: "collect_channel sng t n (rev (chs ! n)) w = Returned w1"
    and sc1: "scanned (activePattern w) t (set (channel_events (rev (chs ! n)))) (heap w) (heap w1)"
    and fr1: "activePattern w1 = activePattern w" "length (channelQueue w1) = length (channelQueue w)"
    using collect_channel_scanned by blast
  have "n \<le> length chs" "n \<le> length (channelQueue w1)"
    using Suc.prems fr1 by simp_all
  then obtain w2 where s2: "collect_channels sng t chs n w1 = Returned w2"
    and sc2: "scanned (activePattern w1) t (\<Union>ch \<in> set (take n chs). set (channel_events ch)) (heap w1) (heap w2)"
    and fr2: "activePattern w2 = activePattern w1" "length (channelQueue w2) = length (channelQueue w1)"
    using Suc.IH by blast
  have "set (channel_events (rev (chs ! n))) = set (channel_events (chs ! n))"
    by (auto simp add: set_channel_events)
  moreover have "take (Suc n) chs = take n chs @ [chs ! n]"
    using Suc.prems by (simp add: take_Suc_conv_app_nth)
  ultimately have "(\<Union>ch \<in> set (take (Suc n) chs). set (channel_events ch)) =
      set (channel_events (rev (chs ! n))) \<union> (\<Union>ch \<in> set (take n chs). set (channel_events ch))"
    by auto
  then have "scanned (activePattern w) t (\<Union>ch \<in> set (take (Suc n) chs). set (channel_events ch))
      (heap w) (heap w2)"
    using scanned_trans [OF sc1] sc2 fr1 by simp
  then show ?case
    using s1 s2 fr1 fr2 by simp
qed

lemma scanned_same: "scanned a t E h h' \<Longrightarrow> same_event (h e) (h' e)"
  by (simp add: scanned_def)

lemma well_formed_same:
  assumes "well_formed sng h" and "\<forall>e. same_event (h e) (h' e)"
  shows "well_formed sng h'"
  unfolding well_formed_def
proof (intro allI impI ballI conjI)
  fix p ch e
  assume p: "p < length (patterns sng)" and ch: "ch \<in> set (channels (patterns sng ! p))"
    and e: "e \<in> set (channel_events ch)"
  have "startMeasure (seq (h e)) = int p"
    using assms(1) p ch e by (simp add: well_formed_def)
  then show "startMeasure (seq (h' e)) = int p"
    using assms(2) by (simp add: same_event_def)
  fix e'
  assume e': "e' \<in> set (channel_events ch)" and ne: "e \<noteq> e'"
  have "\<not> overlapping (seq (h e)) (seq (h e'))"
    using assms(1) p ch e e' ne by (simp add: well_formed_def)
  then show "\<not> overlapping (seq (h' e)) (seq (h' e'))"
    using assms(2) same_event_overlapping [of "h e" "h' e" "h e'" "h' e'"] by simp
qed

lemma scan_keeps:
  assumes wf: "well_formed sng h" and rs: "recording_silent sng h" and mono: "all_monophonic sng h"
    and sc: "scanned a t E h h'"
    and E: "E = {} \<or> (\<exists>b < length (patterns sng).
              E = (\<Union>ch \<in> set (channels (patterns sng ! b)). set (channel_events ch)))"
  shows "well_formed sng h' \<and> recording_silent sng h' \<and> all_monophonic sng h'"
proof (intro conjI)
  have same: "\<forall>e. same_event (h e) (h' e)"
    using sc by (simp add: scanned_def)
  show "well_formed sng h'"
    using wf same by (rule well_formed_same)
  have play: "seq_playing (seq (h' e)) =
            (if e \<in> E \<and> \<not> ev_recording (h e) \<and> startMeasure (seq (h e)) = a
             then in_trigger_range t (seq (h e)) else seq_playing (seq (h e)))" for e
    using sc by (simp add: scanned_def)
  show "recording_silent sng h'"
    unfolding recording_silent_def
  proof (intro allI impI ballI)
    fix p ch e
    assume p: "p < length (patterns sng)" and ch: "ch \<in> set (channels (patterns sng ! p))"
      and e: "e \<in> set (channel_events ch)" and r: "ev_recording (h' e)"
    have r0: "ev_recording (h e)"
      using same r by (simp add: same_event_def)
    then have "\<not> seq_playing (seq (h e))"
      using rs p ch e by (simp add: recording_silent_def)
    then show "\<not> seq_playing (seq (h' e))"
      using play [of e] r0 by simp
  qed
  show "all_monophonic sng h'"
    unfolding all_monophonic_def monophonic_def
  proof (intro allI impI ballI)
    fix q ch e e'
    assume q: "q < length (patterns sng)" and ch: "ch \<in> set (channels (patterns sng ! q))"
      and e: "e \<in> set (channel_events ch)" and e': "e' \<in> set (channel_events ch)"
      and pl: "seq_playing (seq (h' e)) \<and> seq_playing (seq (h' e'))"
    have old: "e = e'" if "seq_playing (seq (h e))" and "seq_playing (seq (h e'))"
      using mono q ch e e' that by (simp add: all_monophonic_def monophonic_def)
    have sm: "startMeasure (seq (h e)) = int q" "startMeasure (seq (h e')) = int q"
      using wf q ch e e' by (simp_all add: well_formed_def)
    have silent: "\<not> seq_playing (seq (h x))" if "ev_recording (h x)" and "x \<in> set (channel_events ch)" for x
      using rs q ch that by (simp add: recording_silent_def)
    show "e = e'"
    proof (cases "e \<in> E \<and> e' \<in> E \<and> a = int q")
      case True
      have nr: "\<not> ev_recording (h e)" "\<not> ev_recording (h e')"
        using play [of e] play [of e'] pl silent e e' by auto
      then have "in_trigger_range t (seq (h e))" "in_trigger_range t (seq (h e'))"
        using play [of e] play [of e'] pl True sm by simp_all
      then have "overlapping (seq (h e)) (seq (h e'))"
        by (rule in_range_overlapping)
      then show ?thesis
        using wf q ch e e' by (auto simp add: well_formed_def)
    next
      case False
      have "seq_playing (seq (h e)) \<and> seq_playing (seq (h e'))"
      proof (cases "a = int q")
        case False
        then show ?thesis
          using play [of e] play [of e'] pl sm by simp
      next
        case True
        then have notboth: "e \<notin> E \<or> e' \<notin> E"
          using False by simp
        have "E = {} \<or> (\<forall>x \<in> set (channel_events ch). x \<in> E) \<or> (\<forall>x \<in> set (channel_events ch). x \<notin> E)"
        proof (cases "E = {}")
          case True
          then show ?thesis by simp
        next
          case False
          then obtain b where b: "b < length (patterns sng)"
            and Eb: "E = (\<Union>c \<in> set (channels (patterns sng ! b)). set (channel_events c))"
            using E by blast
          show ?thesis
          proof (cases "b = q")
            case True
            then have "\<forall>x \<in> set (channel_events ch). x \<in> E"
              using Eb ch by auto
            then show ?thesis by simp
          next
            case False
            have "x \<notin> E" if x: "x \<in> set (channel_events ch)" for x
            proof
              assume "x \<in> E"
              then obtain c where c: "c \<in> set (channels (patterns sng ! b))"
                and xc: "x \<in> set (channel_events c)"
                using Eb by auto
              have "startMeasure (seq (h x)) = int b"
                using wf b c xc by (simp add: well_formed_def)
              moreover have "startMeasure (seq (h x)) = int q"
                using wf q ch x by (simp add: well_formed_def)
              ultimately show False
                using False by simp
            qed
            then show ?thesis by simp
          qed
        qed
        then have "e \<notin> E \<and> e' \<notin> E"
          using notboth e e' by auto
        then show ?thesis
          using play [of e] play [of e'] pl by simp
      qed
      then show ?thesis
        using old by simp
    qed
  qed
qed

lemma quieter_keeps:
  assumes wf: "well_formed sng h" and rs: "recording_silent sng h" and mono: "all_monophonic sng h"
    and q: "quieter h h'"
  shows "well_formed sng h' \<and> recording_silent sng h' \<and> all_monophonic sng h'"
proof (intro conjI)
  have same: "\<forall>e. same_event (h e) (h' e)"
    using q by (simp add: quieter_def)
  have less: "seq_playing (seq (h' e)) \<Longrightarrow> seq_playing (seq (h e))" for e
    using q by (simp add: quieter_def)
  show "well_formed sng h'"
    using wf same by (rule well_formed_same)
  show "recording_silent sng h'"
    unfolding recording_silent_def
  proof (intro allI impI ballI)
    fix p ch e
    assume p: "p < length (patterns sng)" and ch: "ch \<in> set (channels (patterns sng ! p))"
      and e: "e \<in> set (channel_events ch)" and r: "ev_recording (h' e)"
    have "ev_recording (h e)"
      using same r by (simp add: same_event_def)
    then have "\<not> seq_playing (seq (h e))"
      using rs p ch e by (simp add: recording_silent_def)
    then show "\<not> seq_playing (seq (h' e))"
      using less by blast
  qed
  show "all_monophonic sng h'"
    unfolding all_monophonic_def monophonic_def
  proof (intro allI impI ballI)
    fix p ch e e'
    assume p: "p < length (patterns sng)" and ch: "ch \<in> set (channels (patterns sng ! p))"
      and e: "e \<in> set (channel_events ch)" and e': "e' \<in> set (channel_events ch)"
      and pl: "seq_playing (seq (h' e)) \<and> seq_playing (seq (h' e'))"
    then have "seq_playing (seq (h e)) \<and> seq_playing (seq (h e'))"
      using less by blast
    then show "e = e'"
      using mono p ch e e' by (simp add: all_monophonic_def monophonic_def)
  qed
qed

lemma quieter_refl [simp]: "quieter h h"
  by (simp add: quieter_def)

lemma quieter_stop_all: "quieter (heap w) (heap (stop_all qs t w))"
  by (simp add: quieter_def stop_all_heap clear_playing_def same_event_def)

lemma setPosition_quieter:
  "quieter (heap w) (heap (state_of (setPosition audio sng p ct w))) \<and>
   length (channelQueue (state_of (setPosition audio sng p ct w))) = length (channelQueue w)"
  by (simp add: setPosition_def Let_def stop_all_heap quieter_def clear_playing_def same_event_def
      split: option.splits)

lemma step_position_quieter:
  "quieter (heap w) (heap (state_of (step_position audio sng w))) \<and>
   length (channelQueue (state_of (step_position audio sng w))) = length (channelQueue w)"
proof (cases "setPosition audio sng (activePattern w) (Some (nextNoteTime w)) w")
  case (Returned w1)
  then have "quieter (heap w) (heap w1) \<and> length (channelQueue w1) = length (channelQueue w)"
    using setPosition_quieter [of w audio sng "activePattern w" "Some (nextNoteTime w)"] by simp
  then show ?thesis
    by (simp add: step_position_def Returned setActivePattern_def Let_def split: option.splits)
next
  case (Thrown err w1)
  then have "quieter (heap w) (heap w1) \<and> length (channelQueue w1) = length (channelQueue w)"
    using setPosition_quieter [of w audio sng "activePattern w" "Some (nextNoteTime w)"] by simp
  then show ?thesis
    by (simp add: step_position_def Thrown)
qed

lemma step_quieter:
  "quieter (heap w) (heap (state_of (step audio sng w))) \<and>
   length (channelQueue (state_of (step audio sng w))) = length (channelQueue w)"
proof -
  have a: "quieter (heap w) (heap (state_of (step_position audio sng w')))
     \<and> length (channelQueue (state_of (step_position audio sng w'))) = length (channelQueue w)"
    if "heap w' = heap w" and "channelQueue w' = channelQueue w" for w'
    using step_position_quieter [of w' audio sng] that by simp
  show ?thesis
    by (simp add: step_def Let_def setCurrentStep_def setActivePattern_def gotoNextPattern_def
        setPlaying_def a)
qed

lemma queue_per_channel_length:
  "length (channelQueue w') = length (channelQueue w) \<Longrightarrow>
   queue_per_channel sng w' = queue_per_channel sng w"
  by (simp add: queue_per_channel_def)

lemma state_channels_cases:
  "state_channels sng w = [] \<or>
   (\<exists>b < length (patterns sng). state_channels sng w = channels (patterns sng ! b))"
  by (auto simp add: state_channels_def array_get_def split: option.splits)

lemma collect_pass_keeps:
  assumes wf: "well_formed sng (heap w)" and qpc: "queue_per_channel sng w"
    and rs: "recording_silent sng (heap w)" and mono: "all_monophonic sng (heap w)"
  shows "well_formed sng (heap (state_of (collect_pass audio sng se w))) \<and>
     queue_per_channel sng (state_of (collect_pass audio sng se w)) \<and>
     recording_silent sng (heap (state_of (collect_pass audio sng se w))) \<and>
     all_monophonic sng (heap (state_of (collect_pass audio sng se w)))"
proof -
  let ?chs = "state_channels sng w"
  let ?t = "js_sub (nextNoteTime w) (measureStartTime w)"
  let ?scan = "if se then collect_channels sng ?t ?chs (length ?chs) w else Returned w"
  have len: "length ?chs \<le> length (channelQueue w)"
  proof -
    from state_channels_cases [of sng w] show ?thesis
    proof
      assume "?chs = []"
      then show ?thesis by simp
    next
      assume "\<exists>b < length (patterns sng). ?chs = channels (patterns sng ! b)"
      then obtain b where "b < length (patterns sng)" and "?chs = channels (patterns sng ! b)"
        by blast
      then show ?thesis
        using qpc by (simp add: queue_per_channel_def)
    qed
  qed
  have E: "(\<Union>ch \<in> set ?chs. set (channel_events ch)) = {} \<or>
      (\<exists>b < length (patterns sng).
         (\<Union>ch \<in> set ?chs. set (channel_events ch)) =
         (\<Union>ch \<in> set (channels (patterns sng ! b)). set (channel_events ch)))"
    using state_channels_cases [of sng w] by auto
  obtain w1 where scan: "?scan = Returned w1"
    and inv1: "well_formed sng (heap w1) \<and> recording_silent sng (heap w1) \<and> all_monophonic sng (heap w1)"
    and q1: "length (channelQueue w1) = length (channelQueue w)"
  proof (cases se)
    case False
    then show ?thesis
      using that [of w] wf rs mono by simp
  next
    case True
    obtain w1 where s: "collect_channels sng ?t ?chs (length ?chs) w = Returned w1"
      and sc: "scanned (activePattern w) ?t (\<Union>ch \<in> set (take (length ?chs) ?chs). set (channel_events ch))
                 (heap w) (heap w1)"
      and q: "length (channelQueue w1) = length (channelQueue w)"
      using collect_channels_scanned [of "length ?chs" ?chs w sng ?t] len by auto
    have "scanned (activePattern w) ?t (\<Union>ch \<in> set ?chs. set (channel_events ch)) (heap w) (heap w1)"
      using sc by simp
    then have "well_formed sng (heap w1) \<and> recording_silent sng (heap w1) \<and> all_monophonic sng (heap w1)"
      using scan_keeps [OF wf rs mono _ E] by blast
    then show ?thesis
      using that [of w1] s q True by simp
  qed
  let ?w2 = "if enabled (metronome w1)
             then w1\<lparr> sink := sink w1 @
                       [MetronomePlay 2 (currentStep w1) (stepPrecision w1) (nextNoteTime w1)] \<rparr>
             else w1"
  have pass: "collect_pass audio sng se w = step audio sng ?w2"
    using scan by (simp add: collect_pass_def)
  have h2: "heap ?w2 = heap w1" and q2: "channelQueue ?w2 = channelQueue w1"
    by simp_all
  have qt: "quieter (heap w1) (heap (state_of (step audio sng ?w2)))"
    and ql: "length (channelQueue (state_of (step audio sng ?w2))) = length (channelQueue w)"
    using step_quieter [of ?w2 audio sng] h2 q2 q1 by simp_all
  have "well_formed sng (heap (state_of (step audio sng ?w2))) \<and>
        recording_silent sng (heap (state_of (step audio sng ?w2))) \<and>
        all_monophonic sng (heap (state_of (step audio sng ?w2)))"
    using quieter_keeps [OF _ _ _ qt] inv1 by blast
  moreover have "queue_per_channel sng (state_of (step audio sng ?w2))"
    using queue_per_channel_length [OF ql] qpc by simp
  ultimately show ?thesis
    by (simp only: pass)
qed

lemma collect_loop_keeps:
  assumes "well_formed sng (heap w)" and "queue_per_channel sng w"
    and "recording_silent sng (heap w)" and "all_monophonic sng (heap w)"
    and "collect_loop fuel audio sng se w = Some out"
  shows "well_formed sng (heap (state_of out)) \<and> queue_per_channel sng (state_of out) \<and>
     recording_silent sng (heap (state_of out)) \<and> all_monophonic sng (heap (state_of out))"
  using assms
proof (induction fuel arbitrary: w)
  case 0
  then have "out = Returned w \<or> out = Thrown TypeError w"
    by (subst (asm) collect_loop.simps) (auto split: option.splits if_splits)
  then show ?case
    using "0.prems" by auto
next
  case (Suc n)
  show ?case
  proof (cases "\<exists>now. audioContext audio = Some now \<and> nextNoteTime w < js_add now (scheduleAheadTime w)")
    case False
    then have "out = Returned w \<or> out = Thrown TypeError w"
      using Suc.prems(5) by (subst (asm) collect_loop.simps) (auto split: option.splits if_splits)
    then show ?thesis
      using Suc.prems by auto
  next
    case True
    let ?r = "collect_pass audio sng se w"
    have inv: "well_formed sng (heap (state_of ?r)) \<and> queue_per_channel sng (state_of ?r) \<and>
       recording_silent sng (heap (state_of ?r)) \<and> all_monophonic sng (heap (state_of ?r))"
      using collect_pass_keeps [OF Suc.prems(1-4)] .
    show ?thesis
    proof (cases ?r)
      case (Thrown err w1)
      then have "out = Thrown err w1"
        using Suc.prems(5) True by (subst (asm) collect_loop.simps) auto
      then show ?thesis
        using inv Thrown by simp
    next
      case (Returned w1)
      then have "collect_loop n audio sng se w1 = Some out"
        using Suc.prems(5) True by (subst (asm) collect_loop.simps) auto
      moreover have "well_formed sng (heap w1)" "queue_per_channel sng w1"
        "recording_silent sng (heap w1)" "all_monophonic sng (heap w1)"
        using inv Returned by simp_all
      ultimately show ?thesis
        using Suc.IH by blast
    qed
  qed
qed

text \<open>
  Claim C1, as the code has it. Take a song in which every event stored in a channel of
  pattern \<open>p\<close> has \<open>seq.startMeasure = p\<close> and no two events of one channel have
  overlapping trigger ranges, with a LinkedList for every channel, and a state in which
  no event that is being recorded is playing and every channel holds at most one event
  with \<open>seq.playing\<close> set. Then all of this holds again after every call of \<open>collect\<close>
  that comes back, whether it returns or throws: after any sequence of such calls, at
  most one event stored in a channel has \<open>seq.playing\<close> set. (The loop of \<open>collect\<close>
  keeps it pass by pass, \<open>collect_pass_keeps\<close>.)
\<close>

theorem collect_keeps_monophonic:
  assumes "well_formed sng (heap w)" and "queue_per_channel sng w"
    and "recording_silent sng (heap w)" and "all_monophonic sng (heap w)"
    and "collect fuel audio sng w = Some out"
  shows "all_monophonic sng (heap (state_of out)) \<and>
     well_formed sng (heap (state_of out)) \<and> queue_per_channel sng (state_of out) \<and>
     recording_silent sng (heap (state_of out))"
  using collect_loop_keeps [OF assms(1-4)] assms(5) by (simp add: collect_def Let_def)

theorem collect_keeps_monophonic_witness:
  "well_formed demo_song (heap demo_store) \<and> queue_per_channel demo_song demo_store \<and>
   recording_silent demo_song (heap demo_store) \<and> all_monophonic demo_song (heap demo_store) \<and>
   (case collect 3 (demo_audio\<lparr> audioContext := Some 1 \<rparr>) demo_song demo_store of
      None \<Rightarrow> False
    | Some out \<Rightarrow> seq_playing (seq (heap (state_of out) 1)) \<and>
                  all_monophonic demo_song (heap (state_of out)))"
proof -
  let ?audio = "demo_audio\<lparr> audioContext := Some 1 \<rparr>"
  have h1: "well_formed demo_song (heap demo_store)"
    by code_simp
  have h2: "queue_per_channel demo_song demo_store"
    by code_simp
  have h3: "recording_silent demo_song (heap demo_store)"
    by code_simp
  have h4: "all_monophonic demo_song (heap demo_store)"
    by code_simp
  have "case collect 3 ?audio demo_song demo_store of
          None \<Rightarrow> False
        | Some out \<Rightarrow> seq_playing (seq (heap (state_of out) 1))"
    by code_simp
  then obtain out where c: "collect 3 ?audio demo_song demo_store = Some out"
    and p: "seq_playing (seq (heap (state_of out) 1))"
    by (cases "collect 3 ?audio demo_song demo_store") simp_all
  have "all_monophonic demo_song (heap (state_of out))"
    using collect_keeps_monophonic [OF h1 h2 h3 h4 c] by blast
  then show ?thesis
    using h1 h2 h3 h4 c p by simp
qed

text \<open>Two notes of one channel whose trigger ranges overlap are both playing after
  \<open>collect\<close> has passed the start of the second: its enqueueing dequeues the first but
  leaves \<open>seq.playing\<close> of the first set. And within a pass, with ranges that do not
  overlap, the note that has just ended is still marked playing when its successor is
  enqueued, since the slots are visited from the last to the first.\<close>

theorem collect_counterexample:
  "\<not> monophonic (heap (state_of (the (collect 2 demo_audio overlap_song overlap_store))))
       (channels (patterns overlap_song ! 0) ! 0) \<and>
   \<not> monophonic
       (heap (state_of (enqueueEvent overlap_song 1 0
          (state_of (the (collect 1 (demo_audio\<lparr> audioContext := Some (1/8) \<rparr>) overlap_song legato_store))))))
       (channels (patterns overlap_song ! 0) ! 0)"
  by code_simp

end
